theory Spec2Isabelle
  imports Complex_Main
begin

section \<open>Configuration\<close>

text \<open>
  \<^verbatim>\<open>websocket.py\<close> imports \<^verbatim>\<open>PING_INTERVAL\<close>, \<^verbatim>\<open>PING_TIMEOUT\<close>, \<^verbatim>\<open>MAX_WEBSOCKETS\<close> and
  \<^verbatim>\<open>WS_TOPICS_LIMIT\<close> from the module \<^verbatim>\<open>constants\<close>, which is not among the sources.
  Their values are the fields of a record that every operation takes, so that each result
  holds for whatever is configured. The two durations are in seconds
  (\<^verbatim>\<open>total_seconds()\<close>); times are Python floats, read here as real numbers.
\<close>

record config =
  MAX_WEBSOCKETS :: nat
  WS_TOPICS_LIMIT :: nat
  PING_INTERVAL :: real
  PING_TIMEOUT :: real

section \<open>Topics, sets of topics, dictionaries\<close>

text \<open>
  Modelled from the spec: the class \<^verbatim>\<open>WebsocketTopic\<close> (module \<^verbatim>\<open>constants\<close>) is missing
  from the sources. The spec describes a topic as "an opaque, stringifiable subscription
  key with an associated asynchronous handler", and says that "topics are
  compared/deduplicated by their string form". A topic is therefore its string form
  together with a handler (an opaque number); membership in a Python set of topics is
  decided by the string form alone.
\<close>

record topic =
  topic_str :: string
  process :: nat

text \<open>
  A Python \<^verbatim>\<open>set\<close> of topics is a list without two topics of the same string form. The
  order of the list is the order in which \<^verbatim>\<open>pop\<close> and iteration hand the elements out; the
  source fixes no such order, and every theorem below holds for all of them.
\<close>

definition topic_mem :: "topic \<Rightarrow> topic list \<Rightarrow> bool" where
  "topic_mem t s = (topic_str t \<in> set (map topic_str s))"

definition set_add :: "topic \<Rightarrow> topic list \<Rightarrow> topic list" where
  "set_add t s = (if topic_mem t s then s else s @ [t])"

text \<open>\<^verbatim>\<open>set(iterable)\<close> and \<^verbatim>\<open>s.update(iterable)\<close>.\<close>

definition set_update :: "topic list \<Rightarrow> topic list \<Rightarrow> topic list" where
  "set_update s ts = fold set_add ts s"

definition set_of :: "topic list \<Rightarrow> topic list" where
  "set_of ts = set_update [] ts"

text \<open>\<^verbatim>\<open>s.difference(other)\<close> and \<^verbatim>\<open>s.difference_update(other)\<close>.\<close>

definition set_difference :: "topic list \<Rightarrow> topic list \<Rightarrow> topic list" where
  "set_difference s other = filter (\<lambda>t. \<not> topic_mem t other) s"

text \<open>
  A Python \<^verbatim>\<open>dict\<close> with string keys is an association list in insertion order:
  \<^verbatim>\<open>d[k] = v\<close> replaces the value of a key that is present and appends otherwise,
  \<^verbatim>\<open>del d[k]\<close> drops the entry, \<^verbatim>\<open>len(d)\<close> is the length of the list.
\<close>

type_synonym 'v dict = "(string \<times> 'v) list"

definition dict_keys :: "'v dict \<Rightarrow> string list" where
  "dict_keys d = map fst d"

definition dict_values :: "'v dict \<Rightarrow> 'v list" where
  "dict_values d = map snd d"

definition dict_set :: "string \<Rightarrow> 'v \<Rightarrow> 'v dict \<Rightarrow> 'v dict" where
  "dict_set k v d =
     (if k \<in> set (dict_keys d) then map (\<lambda>(k', v'). if k' = k then (k', v) else (k', v')) d
      else d @ [(k, v)])"

definition dict_del :: "string \<Rightarrow> 'v dict \<Rightarrow> 'v dict" where
  "dict_del k d = filter (\<lambda>(k', v'). k' \<noteq> k) d"

section \<open>The connection and the pool\<close>

text \<open>
  The fields of \<^verbatim>\<open>Websocket.__init__\<close>. The slot \<open>ws\<close> is the \<^verbatim>\<open>AwaitableValue\<close>
  holding the live transport (a transport is named by a number), the three
  \<^verbatim>\<open>asyncio.Event\<close> flags are booleans, \<open>handle_task\<close> says whether the handling task
  has been created. The status display (\<^verbatim>\<open>set_status\<close>, \<^verbatim>\<open>gui.websockets\<close>) is an external
  collaborator that holds no state of the connection; its calls are left out.
\<close>

type_synonym transport = nat

record websocket =
  idx :: nat
  ws :: "transport option"
  closed :: bool
  reconnect_requested :: bool
  topics_changed :: bool
  next_ping :: real
  max_pong :: real
  handle_task :: bool
  topics :: "topic dict"
  submitted :: "topic list"

definition Websocket :: "config \<Rightarrow> real \<Rightarrow> nat \<Rightarrow> websocket" where
  "Websocket cfg now index =
     \<lparr>idx = index, ws = None, closed = False, reconnect_requested = False,
      topics_changed = False, next_ping = now, max_pong = now + PING_TIMEOUT cfg,
      handle_task = False, topics = [], submitted = []\<rparr>"

text \<open>
  \<^verbatim>\<open>Websocket.start\<close> creates the handling task if there is none and then waits for the
  first transport. What the handling task does to the connection meanwhile is the subject
  of the later sections; it never touches the topic map. The wait itself is the
  environment's: the model describes the calls that come back from it.
\<close>

definition start :: "websocket \<Rightarrow> websocket" where
  "start w = w\<lparr>handle_task := True\<rparr>"

datatype error =
    MinerException string
  | WebsocketClosed
  | JSONDecodeError
  | AttributeError
  | KeyError
  | TypeError

text \<open>
  \<^verbatim>\<open>asyncio.create_task\<close> hands a coroutine to the event loop and returns at once. The
  pool's detached tasks are recorded, in the order of their creation, in \<open>spawned\<close>.
\<close>

datatype task = StopTask websocket | AddTopicsTask "topic list"

record pool =
  running :: bool
  websockets :: "websocket list"
  spawned :: "task list"

definition WebsocketPool :: pool where
  "WebsocketPool = \<lparr>running = False, websockets = [], spawned = []\<rparr>"

subsection \<open>\<^verbatim>\<open>WebsocketPool.add_topics\<close>\<close>

text \<open>
  The inner \<^verbatim>\<open>while topics_set and len(ws.topics) < WS_TOPICS_LIMIT\<close> loop: it returns
  what is left of the request and the connection's new topic map.
\<close>

fun fill :: "nat \<Rightarrow> topic list \<Rightarrow> topic dict \<Rightarrow> topic list \<times> topic dict" where
  "fill cap [] d = ([], d)"
| "fill cap (t # ts) d =
     (if length d < cap then fill cap ts (dict_set (topic_str t) t d) else (t # ts, d))"

text \<open>
  The \<^verbatim>\<open>for i in range(MAX_WEBSOCKETS)\<close> loop over the indices still to visit. \<open>now i\<close>
  is the clock at the moment connection \<open>i\<close> is constructed. A new connection is appended
  at the end of the list, wherever that is; the connection filled is the object \<open>ws\<close> of
  the source, at position \<open>i\<close> when it was read from the list and at the last position
  when it was appended.
\<close>

fun add_loop ::
  "config \<Rightarrow> (nat \<Rightarrow> real) \<Rightarrow> bool \<Rightarrow> nat list \<Rightarrow> topic list \<Rightarrow> websocket list
     \<Rightarrow> error option \<times> websocket list" where
  "add_loop cfg now run [] topics_set wss =
     (Some (MinerException ''Maximum topics limit has been reached''), wss)"
| "add_loop cfg now run (i # ixs) topics_set wss =
     (let (pos, wss1) =
            (if i < length wss then (i, wss)
             else (let w = Websocket cfg (now i) i;
                       w' = (if run then start w else w)
                   in (length wss, wss @ [w'])));
          w = wss1 ! pos;
          (rest, d) = fill (WS_TOPICS_LIMIT cfg) topics_set (topics w);
          wss2 = wss1[pos := w\<lparr>topics := d, topics_changed := True\<rparr>]
      in if rest = [] then (None, wss2) else add_loop cfg now run ixs rest wss2)"

definition held :: "websocket list \<Rightarrow> topic list" where
  "held wss = concat (map (\<lambda>w. dict_values (topics w)) wss)"

definition add_topics ::
  "config \<Rightarrow> (nat \<Rightarrow> real) \<Rightarrow> pool \<Rightarrow> topic list \<Rightarrow> error option \<times> pool" where
  "add_topics cfg now p ts =
     (let topics_set = set_difference (set_of ts) (held (websockets p))
      in if topics_set = [] then (None, p)
         else (let (r, wss) = add_loop cfg now (running p) [0..<MAX_WEBSOCKETS cfg]
                                topics_set (websockets p)
               in (r, p\<lparr>websockets := wss\<rparr>)))"

subsection \<open>\<^verbatim>\<open>add_topics\<close> and its suspension\<close>

text \<open>
  \<^verbatim>\<open>add_topics\<close> is a coroutine: in a running pool it awaits \<^verbatim>\<open>ws.start()\<close> for every
  connection it creates, and while it waits the event loop runs other tasks. The wait
  lies after the test of what is held and the construction of the connection, and before
  the connection is appended and filled. A suspended call keeps its local variables: the
  connection it has constructed, the indices still to visit, and what is left of its
  request.
\<close>

record add_frame =
  frame_ws :: websocket
  frame_ixs :: "nat list"
  frame_topics :: "topic list"

datatype add_result = Done "error option" | Awaits add_frame

text \<open>The filling loop and the flag, on the connection at a position of the list.\<close>

definition assign :: "config \<Rightarrow> nat \<Rightarrow> topic list \<Rightarrow> websocket list \<Rightarrow> topic list \<times> websocket list" where
  "assign cfg pos topics_set wss =
     (let w = wss ! pos;
          (rest, d) = fill (WS_TOPICS_LIMIT cfg) topics_set (topics w)
      in (rest, wss[pos := w\<lparr>topics := d, topics_changed := True\<rparr>]))"

text \<open>
  The \<^verbatim>\<open>for\<close> loop up to its end or to its next wait. In a pool that is not running a new
  connection is appended without a wait.
\<close>

fun add_steps ::
  "config \<Rightarrow> (nat \<Rightarrow> real) \<Rightarrow> bool \<Rightarrow> nat list \<Rightarrow> topic list \<Rightarrow> websocket list
     \<Rightarrow> add_result \<times> websocket list" where
  "add_steps cfg now run [] topics_set wss =
     (Done (Some (MinerException ''Maximum topics limit has been reached'')), wss)"
| "add_steps cfg now run (i # ixs) topics_set wss =
     (if i < length wss then
        (let (rest, wss2) = assign cfg i topics_set wss
         in if rest = [] then (Done None, wss2) else add_steps cfg now run ixs rest wss2)
      else if run then
        (Awaits \<lparr>frame_ws = Websocket cfg (now i) i, frame_ixs = ixs,
                 frame_topics = topics_set\<rparr>, wss)
      else
        (let (rest, wss2) = assign cfg (length wss) topics_set (wss @ [Websocket cfg (now i) i])
         in if rest = [] then (Done None, wss2) else add_steps cfg now run ixs rest wss2))"

text \<open>A call from its beginning to its end or to its first wait.\<close>

definition add_begin ::
  "config \<Rightarrow> (nat \<Rightarrow> real) \<Rightarrow> pool \<Rightarrow> topic list \<Rightarrow> add_result \<times> pool" where
  "add_begin cfg now p ts =
     (let topics_set = set_difference (set_of ts) (held (websockets p))
      in if topics_set = [] then (Done None, p)
         else (let (r, wss) = add_steps cfg now (running p) [0..<MAX_WEBSOCKETS cfg]
                                topics_set (websockets p)
               in (r, p\<lparr>websockets := wss\<rparr>)))"

text \<open>
  A suspended call when its wait is over: the started connection is appended to the list
  as it is by then, filled and flagged, and the loop goes on.
\<close>

definition add_resume ::
  "config \<Rightarrow> (nat \<Rightarrow> real) \<Rightarrow> pool \<Rightarrow> add_frame \<Rightarrow> add_result \<times> pool" where
  "add_resume cfg now p fr =
     (let (rest, wss2) = assign cfg (length (websockets p)) (frame_topics fr)
                           (websockets p @ [start (frame_ws fr)])
      in if rest = [] then (Done None, p\<lparr>websockets := wss2\<rparr>)
         else (let (r, wss) = add_steps cfg now (running p) (frame_ixs fr) rest wss2
               in (r, p\<lparr>websockets := wss\<rparr>)))"

subsection \<open>\<^verbatim>\<open>WebsocketPool.remove_topics\<close>\<close>

text \<open>
  The first loop: for each connection in turn, the requested keys it holds are taken out
  of the request, deleted from its map, and its topics-changed flag is set. The request
  is a Python set of strings: a list without repetition.
\<close>

fun delete_topics :: "string list \<Rightarrow> websocket list \<Rightarrow> websocket list" where
  "delete_topics topics_set [] = []"
| "delete_topics topics_set (w # wss) =
     (let existing = filter (\<lambda>k. k \<in> set (dict_keys (topics w))) topics_set
      in if existing \<noteq> []
         then w\<lparr>topics := fold dict_del existing (topics w), topics_changed := True\<rparr>
                # delete_topics (filter (\<lambda>k. k \<notin> set existing) topics_set) wss
         else w # delete_topics topics_set wss)"

definition total_topics :: "websocket list \<Rightarrow> nat" where
  "total_topics wss = sum_list (map (\<lambda>w. length (topics w)) wss)"

text \<open>
  The consolidation loop, with the list of recycled topics and the tasks created so far.
  \<^verbatim>\<open>self.websockets.pop()\<close> takes the last connection off the list.
\<close>

function consolidate ::
  "config \<Rightarrow> websocket list \<Rightarrow> topic list \<Rightarrow> task list
     \<Rightarrow> websocket list \<times> topic list \<times> task list" where
  "consolidate cfg wss recycled_topics created =
     (if wss \<noteq> [] \<and> total_topics wss \<le> (length wss - 1) * WS_TOPICS_LIMIT cfg
      then consolidate cfg (butlast wss)
             (recycled_topics @ dict_values (topics (last wss)))
             (created @ [StopTask (last wss)])
      else (wss, recycled_topics, created))"
  by pat_completeness auto
termination
  by (relation "measure (\<lambda>(cfg, wss, recycled_topics, created). length wss)") auto

declare consolidate.simps [simp del]

definition remove_topics :: "config \<Rightarrow> pool \<Rightarrow> string list \<Rightarrow> pool" where
  "remove_topics cfg p ts =
     (let wss1 = delete_topics (remdups ts) (websockets p);
          (wss2, recycled_topics, created) = consolidate cfg wss1 [] [];
          created' = (if recycled_topics \<noteq> [] then created @ [AddTopicsTask recycled_topics]
                      else created)
      in p\<lparr>websockets := wss2, spawned := spawned p @ created'\<rparr>)"

subsection \<open>\<^verbatim>\<open>WebsocketPool.start\<close> and \<^verbatim>\<open>WebsocketPool.stop\<close>\<close>

text \<open>
  \<^verbatim>\<open>Websocket.stop\<close> returns at once when the close flag is already set and sets it
  otherwise; closing the transport and waiting for the handling task are the
  environment's. The pool forwards both calls to every connection.
\<close>

definition stop :: "websocket \<Rightarrow> websocket" where
  "stop w = (if closed w then w else w\<lparr>closed := True\<rparr>)"

definition pool_start :: "pool \<Rightarrow> pool" where
  "pool_start p = p\<lparr>running := True, websockets := map start (websockets p)\<rparr>"

definition pool_stop :: "pool \<Rightarrow> pool" where
  "pool_stop p = p\<lparr>running := False, websockets := map stop (websockets p)\<rparr>"

section \<open>The handling loop of a connection\<close>

subsection \<open>Messages\<close>

text \<open>
  The three messages the connection sends, a decoded JSON value, and the frames it
  receives (\<^verbatim>\<open>aiohttp.WSMsgType\<close> and the frame's \<^verbatim>\<open>data\<close>).
\<close>

datatype request = Ping | Unlisten "string list" string | Listen "string list" string

datatype json =
    JNull
  | JBool bool
  | JNum real
  | JStr string
  | JArr "json list"
  | JObj "(string \<times> json) list"

datatype WSMsgType = CONTINUATION | TEXT | BINARY | PING | PONG | CLOSE | CLOSING | CLOSED | ERROR

record ws_message =
  msg_type :: WSMsgType
  data :: string

text \<open>
  What a handler does besides changing the connection: a message written to a transport
  with its nonce (\<^verbatim>\<open>ws.send_json\<close>), a topic handler started as a task on a decoded
  payload, the slot set to a transport, the slot cleared.
\<close>

datatype effect =
    Sent transport request "string option"
  | Dispatched topic json
  | Published transport
  | Cleared

text \<open>
  A handler returns, raises, or stays suspended in \<^verbatim>\<open>self._ws.get()\<close> because the
  slot is empty; in each case the connection is left in some state and some effects have
  happened.
\<close>

datatype status = Returned | Raised error | Waiting

type_synonym step = "websocket \<times> effect list \<times> status"

subsection \<open>\<^verbatim>\<open>request_reconnect\<close> and \<^verbatim>\<open>send\<close>\<close>

definition request_reconnect :: "real \<Rightarrow> websocket \<Rightarrow> websocket" where
  "request_reconnect now w = w\<lparr>next_ping := now, reconnect_requested := True\<rparr>"

text \<open>
  \<^verbatim>\<open>send\<close> reads the slot, tags every message but a PING with a nonce and writes it.
  \<^verbatim>\<open>create_nonce\<close> (module \<^verbatim>\<open>utils\<close>) is not among the sources: the nonce it draws is
  an argument. \<open>None\<close> is the caller suspended on an empty slot.
\<close>

definition send :: "websocket \<Rightarrow> string \<Rightarrow> request \<Rightarrow> effect option" where
  "send w nonce message =
     (case ws w of
        None \<Rightarrow> None
      | Some tr \<Rightarrow> Some (Sent tr message (if message \<noteq> Ping then Some nonce else None)))"

subsection \<open>\<^verbatim>\<open>_handle_ping\<close>\<close>

text \<open>\<open>now\<close> is the handler's reading of the clock, \<open>now'\<close> the later reading of
  \<^verbatim>\<open>request_reconnect\<close>.\<close>

definition handle_ping :: "config \<Rightarrow> real \<Rightarrow> real \<Rightarrow> websocket \<Rightarrow> step" where
  "handle_ping cfg now now' w =
     (if now \<ge> next_ping w then
        (let w1 = w\<lparr>next_ping := now + PING_INTERVAL cfg, max_pong := now + PING_TIMEOUT cfg\<rparr>
         in case send w1 [] Ping of
              None \<Rightarrow> (w1, [], Waiting)
            | Some e \<Rightarrow> (w1, [e], Returned))
      else if now \<ge> max_pong w then (request_reconnect now' w, [], Returned)
      else (w, [], Returned))"

subsection \<open>\<^verbatim>\<open>_handle_topics\<close>\<close>

text \<open>
  \<open>access_token\<close> is the credential \<^verbatim>\<open>get_auth\<close> returns, \<open>nonce k\<close> the nonce drawn
  for the message number \<open>k\<close> of this call.
\<close>

text \<open>The two guarded statements \<^verbatim>\<open>if removed := ...\<close> and \<^verbatim>\<open>if added := ...\<close>.\<close>

definition unlisten_removed :: "string \<Rightarrow> string \<Rightarrow> topic list \<Rightarrow> websocket \<Rightarrow> step" where
  "unlisten_removed access_token nonce current w =
     (let removed = set_difference (submitted w) current
      in if removed \<noteq> []
         then (case send w nonce (Unlisten (map topic_str removed) access_token) of
                 None \<Rightarrow> (w, [], Waiting)
               | Some e \<Rightarrow>
                   (w\<lparr>submitted := set_difference (submitted w) removed\<rparr>, [e], Returned))
         else (w, [], Returned))"

definition listen_added :: "string \<Rightarrow> string \<Rightarrow> topic list \<Rightarrow> websocket \<Rightarrow> step" where
  "listen_added access_token nonce current w =
     (let added = set_difference current (submitted w)
      in if added \<noteq> []
         then (case send w nonce (Listen (map topic_str added) access_token) of
                 None \<Rightarrow> (w, [], Waiting)
               | Some e \<Rightarrow> (w\<lparr>submitted := set_update (submitted w) added\<rparr>, [e], Returned))
         else (w, [], Returned))"

definition handle_topics :: "string \<Rightarrow> (nat \<Rightarrow> string) \<Rightarrow> websocket \<Rightarrow> step" where
  "handle_topics access_token nonce w =
     (if \<not> topics_changed w then (w, [], Returned)
      else
        (let w1 = w\<lparr>topics_changed := False\<rparr>;
             current = set_of (dict_values (topics w1));
             (w2, e2, s2) = unlisten_removed access_token (nonce 0) current w1
         in if s2 = Returned
            then (let (w3, e3, s3) = listen_added access_token (nonce (length e2)) current w2
                  in (w3, e2 @ e3, s3))
            else (w2, e2, s2)))"

subsection \<open>\<^verbatim>\<open>_handle_recv\<close>\<close>

text \<open>
  \<^verbatim>\<open>json.loads\<close> is the standard library's decoder, an argument \<open>loads\<close> here: \<open>None\<close> is
  its \<^verbatim>\<open>JSONDecodeError\<close>. The helpers are Python's \<^verbatim>\<open>obj[key]\<close> with a string key,
  \<^verbatim>\<open>self.topics.get(key)\<close> with a decoded value as key (a list or an object cannot be
  hashed, any other value that is not a string is no key of the map), and
  \<^verbatim>\<open>json.loads(value)\<close>, which takes the text of a string only.
\<close>

fun subscript :: "json \<Rightarrow> string \<Rightarrow> error + json" where
  "subscript (JObj kv) k = (case map_of kv k of None \<Rightarrow> Inl KeyError | Some v \<Rightarrow> Inr v)"
| "subscript j k = Inl TypeError"

fun topics_get :: "topic dict \<Rightarrow> json \<Rightarrow> error + topic option" where
  "topics_get d (JStr s) = Inr (map_of d s)"
| "topics_get d (JArr xs) = Inl TypeError"
| "topics_get d (JObj kv) = Inl TypeError"
| "topics_get d j = Inr None"

fun loads_value :: "(string \<Rightarrow> json option) \<Rightarrow> json \<Rightarrow> error + json" where
  "loads_value loads (JStr s) = (case loads s of None \<Rightarrow> Inl JSONDecodeError | Some j \<Rightarrow> Inr j)"
| "loads_value loads j = Inl TypeError"

text \<open>The branch \<^verbatim>\<open>message.get("type") == "MESSAGE"\<close>.\<close>

definition message_branch ::
  "(string \<Rightarrow> json option) \<Rightarrow> websocket \<Rightarrow> json \<Rightarrow> error + effect list" where
  "message_branch loads w message =
     (case subscript message ''data'' of
        Inl e \<Rightarrow> Inl e
      | Inr d \<Rightarrow>
     (case subscript d ''topic'' of
        Inl e \<Rightarrow> Inl e
      | Inr k \<Rightarrow>
     (case topics_get (topics w) k of
        Inl e \<Rightarrow> Inl e
      | Inr None \<Rightarrow> Inr []
      | Inr (Some topic) \<Rightarrow>
     (case subscript d ''message'' of
        Inl e \<Rightarrow> Inl e
      | Inr m \<Rightarrow>
     (case loads_value loads m of
        Inl e \<Rightarrow> Inl e
      | Inr payload \<Rightarrow> Inr [Dispatched topic payload])))))"

text \<open>
  \<open>r\<close> is the outcome of \<^verbatim>\<open>ws.receive(timeout=1.0)\<close>: a frame, or \<open>None\<close> for
  \<^verbatim>\<open>asyncio.TimeoutError\<close>, the one exception the handler catches. \<open>now'\<close> is the clock
  read by \<^verbatim>\<open>request_reconnect\<close>.
\<close>

definition handle_recv ::
  "(string \<Rightarrow> json option) \<Rightarrow> real \<Rightarrow> websocket \<Rightarrow> ws_message option \<Rightarrow> step" where
  "handle_recv loads now' w r =
     (case ws w of
        None \<Rightarrow> (w, [], Waiting)
      | Some tr \<Rightarrow>
     (case r of
        None \<Rightarrow> (w, [], Returned)
      | Some raw_message \<Rightarrow>
          if msg_type raw_message = TEXT then
            (case loads (data raw_message) of
               None \<Rightarrow> (w, [], Raised JSONDecodeError)
             | Some message \<Rightarrow>
            (case message of
               JObj kv \<Rightarrow>
                 if map_of kv ''type'' = Some (JStr ''MESSAGE'') then
                   (case message_branch loads w message of
                      Inl e \<Rightarrow> (w, [], Raised e)
                    | Inr es \<Rightarrow> (w, es, Returned))
                 else if map_of kv ''type'' = Some (JStr ''PONG'') then
                   (w\<lparr>max_pong := next_ping w\<rparr>, [], Returned)
                 else if map_of kv ''type'' = Some (JStr ''RECONNECT'') then
                   (request_reconnect now' w, [], Returned)
                 else (w, [], Returned)
             | _ \<Rightarrow> (w, [], Raised AttributeError)))
          else if msg_type raw_message \<in> {CLOSE, CLOSED, CLOSING, ERROR} then
            (w, [], Raised WebsocketClosed)
          else (w, [], Returned)))"

subsection \<open>\<^verbatim>\<open>_handle\<close>\<close>

text \<open>
  One iteration of the inner loop takes from the environment: the clock read by the ping
  handler and by the two possible calls of \<^verbatim>\<open>request_reconnect\<close>, the credential, the
  nonces, whether another task has called \<^verbatim>\<open>stop\<close> while the loop waits for a frame,
  and the outcome of the receive.
\<close>

record tick =
  time_ping :: real
  time_ping_reconnect :: real
  time_recv_reconnect :: real
  auth_token :: string
  nonces :: "nat \<Rightarrow> string"
  stop_called :: bool
  received :: "ws_message option"

text \<open>
  One pass through the body of the inner loop: the three handlers in their order. A
  handler that raises or stays suspended ends the pass. \<^verbatim>\<open>stop\<close>, when another task
  calls it, finds the loop waiting in \<^verbatim>\<open>receive\<close>.
\<close>

definition interrupted :: "tick \<Rightarrow> websocket \<Rightarrow> websocket" where
  "interrupted k w = (if stop_called k then stop w else w)"

definition iteration :: "config \<Rightarrow> (string \<Rightarrow> json option) \<Rightarrow> tick \<Rightarrow> websocket \<Rightarrow> step" where
  "iteration cfg loads k w =
     (let (w1, e1, s1) = handle_ping cfg (time_ping k) (time_ping_reconnect k) w
      in if s1 \<noteq> Returned then (w1, e1, s1)
         else
           (let (w2, e2, s2) = handle_topics (auth_token k) (nonces k) w1
            in if s2 \<noteq> Returned then (w2, e1 @ e2, s2)
               else
                 (let (w3, e3, s3) =
                        handle_recv loads (time_recv_reconnect k) (interrupted k w2) (received k)
                  in (w3, e1 @ e2 @ e3, s3))))"

text \<open>
  The inner loop ends because a reconnect was requested, because a handler raised, or not
  at all within the iterations given (\<open>Unfinished\<close>, or \<open>Suspended\<close> on an empty slot).
\<close>

datatype loop_exit = Requested | Failed error | Suspended | Unfinished

fun inner_loop ::
  "config \<Rightarrow> (string \<Rightarrow> json option) \<Rightarrow> websocket \<Rightarrow> tick list
     \<Rightarrow> websocket \<times> effect list \<times> loop_exit" where
  "inner_loop cfg loads w [] =
     (if reconnect_requested w then (w, [], Requested) else (w, [], Unfinished))"
| "inner_loop cfg loads w (k # ks) =
     (if reconnect_requested w then (w, [], Requested)
      else
        (let (w1, e1, s1) = iteration cfg loads k w
         in case s1 of
              Raised err \<Rightarrow> (w1, e1, Failed err)
            | Waiting \<Rightarrow> (w1, e1, Suspended)
            | Returned \<Rightarrow>
                (let (w2, e2, x) = inner_loop cfg loads w1 ks in (w2, e1 @ e2, x))))"

text \<open>
  The body of the \<^verbatim>\<open>async for\<close>: the new transport is published, the reconnect flag
  cleared and the topics-changed flag set; then the inner loop; the \<^verbatim>\<open>finally\<close> block
  (\<open>cleanup\<close>) runs on every way out of the inner loop.
\<close>

definition publish :: "transport \<Rightarrow> websocket \<Rightarrow> websocket" where
  "publish tr w = w\<lparr>ws := Some tr, reconnect_requested := False, topics_changed := True\<rparr>"

definition cleanup :: "websocket \<Rightarrow> websocket" where
  "cleanup w = w\<lparr>ws := None, submitted := []\<rparr>"

definition session ::
  "config \<Rightarrow> (string \<Rightarrow> json option) \<Rightarrow> transport \<Rightarrow> tick list \<Rightarrow> websocket
     \<Rightarrow> websocket \<times> effect list \<times> loop_exit" where
  "session cfg loads tr ks w =
     (let (w1, es, x) = inner_loop cfg loads (publish tr w) ks
      in if x = Unfinished \<or> x = Suspended then (w1, Published tr # es, x)
         else (cleanup w1, Published tr # es @ [Cleared], x))"

text \<open>
  The outer loop over the transports that \<^verbatim>\<open>_backoff_connect\<close> yields, each with the
  iterations the inner loop gets on it. After a requested reconnect, and after
  \<^verbatim>\<open>WebsocketClosed\<close> when no close was asked for, the loop goes on to the next
  transport; it stops on \<^verbatim>\<open>WebsocketClosed\<close> with the close flag set and on any other
  exception, which leaves \<^verbatim>\<open>_handle\<close>.
\<close>

fun handle_loop ::
  "config \<Rightarrow> (string \<Rightarrow> json option) \<Rightarrow> websocket \<Rightarrow> (transport \<times> tick list) list
     \<Rightarrow> websocket \<times> effect list" where
  "handle_loop cfg loads w [] = (w, [])"
| "handle_loop cfg loads w ((tr, ks) # rest) =
     (let (w1, es, x) = session cfg loads tr ks w
      in if x = Requested \<or> (x = Failed WebsocketClosed \<and> \<not> closed w1)
         then (let (w2, es2) = handle_loop cfg loads w1 rest in (w2, es @ es2))
         else (w1, es))"

definition handle ::
  "config \<Rightarrow> (string \<Rightarrow> json option) \<Rightarrow> websocket \<Rightarrow> (transport \<times> tick list) list
     \<Rightarrow> websocket \<times> effect list" where
  "handle cfg loads w sessions = handle_loop cfg loads (w\<lparr>closed := False\<rparr>) sessions"

text \<open>
  The slot discipline read off a list of effects: a transport is published only into an
  empty slot. The flag says whether the slot is occupied.
\<close>

fun slot_ok :: "bool \<Rightarrow> effect list \<Rightarrow> bool" where
  "slot_ok occupied [] = True"
| "slot_ok occupied (Published tr # es) = (\<not> occupied \<and> slot_ok True es)"
| "slot_ok occupied (Cleared # es) = slot_ok False es"
| "slot_ok occupied (e # es) = slot_ok occupied es"

text \<open>The effects of the handlers go to the wire or to a topic handler, not to the slot.\<close>

fun on_wire :: "effect \<Rightarrow> bool" where
  "on_wire (Sent tr m n) = True"
| "on_wire (Dispatched t j) = True"
| "on_wire e = False"

section \<open>Reachable pools\<close>

text \<open>
  The pools a program can build, each with the calls of \<open>add_topics\<close> that are suspended
  in it. From the empty pool: a call of \<open>add_topics\<close> with any request (this covers the
  detached \<open>add_topics\<close> task of \<open>remove_topics\<close>, whenever it runs) runs to its end or to
  its first wait; a suspended call is resumed and runs to its end or to its next wait;
  between the two any other step may happen. \<open>remove_topics\<close>, the pool's \<open>start\<close> and
  \<open>stop\<close> have no wait in which the list of connections is touched. The handling loop of
  a connection makes any progress. The rule \<open>add\<close> is a call of \<open>add_topics\<close> that no
  other step interrupts.
\<close>

inductive reaches :: "config \<Rightarrow> pool \<Rightarrow> add_frame list \<Rightarrow> bool" for cfg :: config where
  init: "reaches cfg WebsocketPool []"
| add: "reaches cfg p fs \<Longrightarrow> add_topics cfg now p ts = (r, p') \<Longrightarrow> reaches cfg p' fs"
| begin_done: "reaches cfg p fs \<Longrightarrow> add_begin cfg now p ts = (Done r, p') \<Longrightarrow> reaches cfg p' fs"
| begin_awaits: "reaches cfg p fs \<Longrightarrow> add_begin cfg now p ts = (Awaits fr, p')
     \<Longrightarrow> reaches cfg p' (fr # fs)"
| resume_done: "reaches cfg p fs \<Longrightarrow> fr \<in> set fs \<Longrightarrow> add_resume cfg now p fr = (Done r, p')
     \<Longrightarrow> reaches cfg p' (remove1 fr fs)"
| resume_awaits: "reaches cfg p fs \<Longrightarrow> fr \<in> set fs \<Longrightarrow> add_resume cfg now p fr = (Awaits fr', p')
     \<Longrightarrow> reaches cfg p' (fr' # remove1 fr fs)"
| remove: "reaches cfg p fs \<Longrightarrow> reaches cfg (remove_topics cfg p ks) fs"
| starting: "reaches cfg p fs \<Longrightarrow> reaches cfg (pool_start p) fs"
| stopping: "reaches cfg p fs \<Longrightarrow> reaches cfg (pool_stop p) fs"
| progress: "reaches cfg p fs \<Longrightarrow> i < length (websockets p)
     \<Longrightarrow> handle cfg loads (websockets p ! i) sessions = (w', es)
     \<Longrightarrow> reaches cfg (p\<lparr>websockets := (websockets p)[i := w']\<rparr>) fs"

definition reachable :: "config \<Rightarrow> pool \<Rightarrow> bool" where
  "reachable cfg p = (\<exists>fs. reaches cfg p fs)"

text \<open>The two properties of a list of connections that the pool is meant to keep.\<close>

definition topic_keys :: "websocket \<Rightarrow> string set" where
  "topic_keys w = set (dict_keys (topics w))"

definition unique_topics :: "websocket list \<Rightarrow> bool" where
  "unique_topics wss =
     (\<forall>i < length wss. \<forall>j < length wss. i \<noteq> j \<longrightarrow> topic_keys (wss ! i) \<inter> topic_keys (wss ! j) = {})"

definition within_limit :: "config \<Rightarrow> websocket list \<Rightarrow> bool" where
  "within_limit cfg wss = (\<forall>w \<in> set wss. length (topics w) \<le> WS_TOPICS_LIMIT cfg)"

text \<open>
  A topic map is well formed when no key occurs twice in it and every topic sits under
  its own string form, as \<^verbatim>\<open>ws.topics[str(topic)] = topic\<close> stores it.
\<close>

definition well_formed :: "websocket \<Rightarrow> bool" where
  "well_formed w =
     (distinct (dict_keys (topics w)) \<and> (\<forall>(k, t) \<in> set (topics w). k = topic_str t))"

text \<open>
  A connection \<open>w'\<close> is \<open>shrunk\<close> from \<open>w\<close> when its topic map is what a filter leaves
  of the topic map of \<open>w\<close>.
\<close>

definition shrunk :: "websocket \<Rightarrow> websocket \<Rightarrow> bool" where
  "shrunk w' w = (\<exists>P. topics w' = filter P (topics w))"

section \<open>A small configuration\<close>

text \<open>
  Two connections of two topics each, a ping every 180 seconds and 10 seconds for the
  pong; topics named by their key; a connection and a pool given by the keys they hold.
  The theorems are evaluated on these.
\<close>

definition demo_cfg :: config where
  "demo_cfg = \<lparr>MAX_WEBSOCKETS = 2, WS_TOPICS_LIMIT = 2, PING_INTERVAL = 180, PING_TIMEOUT = 10\<rparr>"

definition topic_of :: "string \<Rightarrow> topic" where
  "topic_of k = \<lparr>topic_str = k, process = 0\<rparr>"

definition demo_ws :: "nat \<Rightarrow> string list \<Rightarrow> websocket" where
  "demo_ws i ks = (Websocket demo_cfg 0 i)\<lparr>topics := map (\<lambda>k. (k, topic_of k)) ks\<rparr>"

definition demo_pool :: "string list list \<Rightarrow> pool" where
  "demo_pool kss =
     \<lparr>running = False, websockets = map (\<lambda>(i, ks). demo_ws i ks) (enumerate 0 kss), spawned = []\<rparr>"

text \<open>
  A connected connection holding the given keys; the nonces of one call; the values of
  \<^verbatim>\<open>json.loads\<close> on the texts the examples receive (\<^verbatim>\<open>{}\<close> is the empty object, \<^verbatim>\<open>[]\<close>
  the empty array, and \<^verbatim>\<open>not json\<close>, like the other texts without a bracket, is no JSON).
\<close>

definition demo_conn :: "string list \<Rightarrow> websocket" where
  "demo_conn ks = (demo_ws 0 ks)\<lparr>ws := Some 7, handle_task := True\<rparr>"

definition demo_nonce :: "nat \<Rightarrow> string" where
  "demo_nonce k = (if k = 0 then ''nonce-0'' else ''nonce-1'')"

definition loads_sample :: "string \<Rightarrow> json option" where
  "loads_sample s =
     (if s = ''{}'' then Some (JObj []) else if s = ''[]'' then Some (JArr []) else None)"

definition text_frame :: "string \<Rightarrow> ws_message" where
  "text_frame s = \<lparr>msg_type = TEXT, data = s\<rparr>"

definition demo_tick :: "real \<Rightarrow> ws_message option \<Rightarrow> tick" where
  "demo_tick t r =
     \<lparr>time_ping = t, time_ping_reconnect = t, time_recv_reconnect = t,
      auth_token = ''token'', nonces = demo_nonce, stop_called = False, received = r\<rparr>"

text \<open>A connection whose pong deadline has passed and whose next ping is not yet due.\<close>

definition demo_late :: websocket where
  "demo_late = (demo_conn [''a''])\<lparr>next_ping := 100, max_pong := 10, submitted := [topic_of ''a'']\<rparr>"

text \<open>The pool after three topics were added to the empty pool.\<close>

definition demo_reached :: pool where
  "demo_reached = snd (add_topics demo_cfg (\<lambda>i. 0) WebsocketPool (map topic_of [''a'', ''b'', ''c'']))"

text \<open>
  A running pool with the topics \<open>a\<close>, \<open>b\<close> and \<open>c\<close>; the same pool after
  \<open>remove_topics(["a", "b"])\<close>; the local variables of a call \<open>add_topics([c])\<close> suspended in
  that pool; the pool after one and after two such calls have been resumed.
\<close>

definition race_start :: pool where
  "race_start = snd (add_topics demo_cfg (\<lambda>i. 0) (pool_start WebsocketPool)
                       (map topic_of [''a'', ''b'', ''c'']))"

definition race_removed :: pool where
  "race_removed = remove_topics demo_cfg race_start [''a'', ''b'']"

definition race_frame :: add_frame where
  "race_frame = \<lparr>frame_ws = Websocket demo_cfg 0 0, frame_ixs = [1],
                 frame_topics = [topic_of ''c'']\<rparr>"

definition race_first :: pool where
  "race_first = snd (add_resume demo_cfg (\<lambda>i. 0) race_removed race_frame)"

definition race_second :: pool where
  "race_second = snd (add_resume demo_cfg (\<lambda>i. 0) race_first race_frame)"

section \<open>Idempotence of \<^verbatim>\<open>add_topics\<close>\<close>

lemma set_difference_all_held:
  "(\<forall>t \<in> set s. topic_mem t other) \<Longrightarrow> set_difference s other = []"
  by (simp add: set_difference_def)

lemma set_add_subset: "set (set_add t s) \<subseteq> insert t (set s)"
  by (auto simp: set_add_def)

lemma set_update_subset: "set (set_update s ts) \<subseteq> set s \<union> set ts"
  unfolding set_update_def
proof (induction ts arbitrary: s)
  case Nil
  show ?case by simp
next
  case (Cons t ts)
  have "set (fold set_add ts (set_add t s)) \<subseteq> set (set_add t s) \<union> set ts"
    by (rule Cons.IH)
  with set_add_subset [of t s] show ?case by auto
qed

lemma set_of_subset: "set (set_of ts) \<subseteq> set ts"
  using set_update_subset [of "[]" ts] by (simp add: set_of_def)

text \<open>
  C4. When every topic of the request is already held by some connection of the pool
  (its string form is the string form of a value of some connection's topic map),
  \<open>add_topics\<close> returns normally and the pool is the pool it was given: every topic map,
  every submitted set and every topics-changed flag is as before, so that no connection
  has a sync to run.
\<close>

theorem add_topics_idempotent:
  assumes "\<forall>t \<in> set ts. topic_mem t (held (websockets p))"
  shows "add_topics cfg now p ts = (None, p)"
proof -
  have "\<forall>t \<in> set (set_of ts). topic_mem t (held (websockets p))"
    using assms set_of_subset [of ts] by blast
  then have "set_difference (set_of ts) (held (websockets p)) = []"
    by (rule set_difference_all_held)
  then show ?thesis by (simp add: add_topics_def)
qed

theorem add_topics_idempotent_witness:
  "add_topics demo_cfg (\<lambda>i. 0) (demo_pool [[''a'']]) [topic_of ''a''] = (None, demo_pool [[''a'']])"
proof -
  have h: "\<forall>t \<in> set [topic_of ''a'']. topic_mem t (held (websockets (demo_pool [[''a'']])))"
    by (simp add: demo_pool_def demo_ws_def topic_of_def held_def topic_mem_def dict_values_def)
  from add_topics_idempotent [OF h] show ?thesis .
qed

section \<open>Capacity of the pool\<close>

lemma dict_set_fresh: "k \<notin> set (dict_keys d) \<Longrightarrow> dict_set k v d = d @ [(k, v)]"
  by (simp add: dict_set_def)

lemma fill_fresh:
  "distinct (map topic_str ts) \<Longrightarrow> set (map topic_str ts) \<inter> set (dict_keys d) = {}
   \<Longrightarrow> fill cap ts d =
       (drop (cap - length d) ts, d @ map (\<lambda>t. (topic_str t, t)) (take (cap - length d) ts))"
proof (induction ts arbitrary: d)
  case Nil
  show ?case by simp
next
  case (Cons t ts)
  show ?case
  proof (cases "length d < cap")
    case False
    then show ?thesis by simp
  next
    case True
    have fresh: "topic_str t \<notin> set (dict_keys d)" using Cons.prems(2) by auto
    let ?d = "d @ [(topic_str t, t)]"
    have "set (map topic_str ts) \<inter> set (dict_keys ?d) = {}"
      using Cons.prems by (auto simp: dict_keys_def)
    moreover have "distinct (map topic_str ts)" using Cons.prems(1) by simp
    ultimately have IH: "fill cap ts ?d =
       (drop (cap - length ?d) ts, ?d @ map (\<lambda>t. (topic_str t, t)) (take (cap - length ?d) ts))"
      by (rule Cons.IH[rotated])
    obtain m where m: "cap - length d = Suc m" using True by (cases "cap - length d") auto
    then have m': "cap - Suc (length d) = m" by simp
    show ?thesis using True IH by (simp add: dict_set_fresh[OF fresh] m m')
  qed
qed


lemma topics_Websocket [simp]: "topics (Websocket cfg t i) = []"
  by (simp add: Websocket_def)

lemma topics_start [simp]: "topics (start w) = topics w"
  by (simp add: start_def)



lemma fold_set_add_distinct:
  "distinct (map topic_str (s @ ts)) \<Longrightarrow> fold set_add ts s = s @ ts"
proof (induction ts arbitrary: s)
  case Nil
  show ?case by simp
next
  case (Cons t ts)
  have "\<not> topic_mem t s" using Cons.prems by (auto simp: topic_mem_def)
  then have "set_add t s = s @ [t]" by (simp add: set_add_def)
  moreover have "fold set_add ts (s @ [t]) = (s @ [t]) @ ts"
    using Cons.prems by (intro Cons.IH) simp
  ultimately show ?case by simp
qed

lemma set_of_distinct: "distinct (map topic_str ts) \<Longrightarrow> set_of ts = ts"
  using fold_set_add_distinct [of "[]" ts] by (simp add: set_of_def set_update_def)




section \<open>The limit of a connection is kept\<close>


lemma dict_set_length: "length (dict_set k v d) \<le> Suc (length d)"
  by (simp add: dict_set_def)

lemma fill_limit: "length d \<le> cap \<Longrightarrow> length (snd (fill cap ts d)) \<le> cap"
proof (induction ts arbitrary: d)
  case Nil
  then show ?case by simp
next
  case (Cons t ts)
  show ?case
  proof (cases "length d < cap")
    case True
    then have "length (dict_set (topic_str t) t d) \<le> cap"
      using dict_set_length [of "topic_str t" t d] by simp
    then show ?thesis using True Cons.IH by simp
  next
    case False
    then show ?thesis using Cons.prems by simp
  qed
qed

lemma within_limit_update:
  "within_limit cfg wss \<Longrightarrow> length (topics w) \<le> WS_TOPICS_LIMIT cfg
     \<Longrightarrow> within_limit cfg (wss[pos := w])"
  using set_update_subset_insert [of wss pos w] by (auto simp: within_limit_def)

lemma within_limit_append:
  "within_limit cfg wss \<Longrightarrow> length (topics w) \<le> WS_TOPICS_LIMIT cfg
     \<Longrightarrow> within_limit cfg (wss @ [w])"
  unfolding within_limit_def by auto

text \<open>One iteration of the outer loop of \<open>add_topics\<close>, in the form the invariants use.\<close>

lemma add_loop_unfold:
  "\<exists>wss1 pos. pos < length wss1
      \<and> (wss1 = wss \<or> (\<exists>w. wss1 = wss @ [w] \<and> topics w = []))
      \<and> add_loop cfg now run (i # ixs) ts wss =
          (let d = fill (WS_TOPICS_LIMIT cfg) ts (topics (wss1 ! pos));
               wss2 = wss1[pos := (wss1 ! pos)\<lparr>topics := snd d, topics_changed := True\<rparr>]
           in if fst d = [] then (None, wss2) else add_loop cfg now run ixs (fst d) wss2)"
proof (cases "i < length wss")
  case True
  have "add_loop cfg now run (i # ixs) ts wss =
          (let d = fill (WS_TOPICS_LIMIT cfg) ts (topics (wss ! i));
               wss2 = wss[i := (wss ! i)\<lparr>topics := snd d, topics_changed := True\<rparr>]
           in if fst d = [] then (None, wss2) else add_loop cfg now run ixs (fst d) wss2)"
    using True by (simp add: Let_def split_def)
  moreover have "wss = wss \<or> (\<exists>w. wss = wss @ [w] \<and> topics w = [])" by simp
  ultimately show ?thesis using True by blast
next
  case False
  define n where "n = (if run then start (Websocket cfg (now i) i) else Websocket cfg (now i) i)"
  define wss1 where "wss1 = wss @ [n]"
  have n: "topics n = []" by (simp add: n_def)
  have nth: "wss1 ! length wss = n" by (simp add: wss1_def)
  have "add_loop cfg now run (i # ixs) ts wss =
          (let d = fill (WS_TOPICS_LIMIT cfg) ts (topics (wss1 ! length wss));
               wss2 = wss1[length wss := (wss1 ! length wss)\<lparr>topics := snd d, topics_changed := True\<rparr>]
           in if fst d = [] then (None, wss2) else add_loop cfg now run ixs (fst d) wss2)"
    unfolding nth using False unfolding wss1_def n_def by (simp add: Let_def split_def)
  moreover have "wss1 = wss \<or> (\<exists>w. wss1 = wss @ [w] \<and> topics w = [])"
    using n by (simp add: wss1_def)
  moreover have "length wss < length wss1" by (simp add: wss1_def)
  ultimately show ?thesis by blast
qed

lemma add_loop_limit:
  "within_limit cfg wss \<Longrightarrow> within_limit cfg (snd (add_loop cfg now run ixs ts wss))"
proof (induction ixs arbitrary: ts wss)
  case Nil
  then show ?case by simp
next
  case (Cons i ixs)
  obtain wss1 pos where pos: "pos < length wss1"
    and w1: "wss1 = wss \<or> (\<exists>w. wss1 = wss @ [w] \<and> topics w = [])"
    and eq: "add_loop cfg now run (i # ixs) ts wss =
          (let d = fill (WS_TOPICS_LIMIT cfg) ts (topics (wss1 ! pos));
               wss2 = wss1[pos := (wss1 ! pos)\<lparr>topics := snd d, topics_changed := True\<rparr>]
           in if fst d = [] then (None, wss2) else add_loop cfg now run ixs (fst d) wss2)"
    using add_loop_unfold [where wss=wss and cfg=cfg and now=now and run=run and i=i
        and ixs=ixs and ts=ts]
    by (elim exE conjE) (rule that)
  have l1: "within_limit cfg wss1" using w1 Cons.prems within_limit_append by auto
  then have "length (topics (wss1 ! pos)) \<le> WS_TOPICS_LIMIT cfg"
    using pos by (simp add: within_limit_def)
  then have "length (snd (fill (WS_TOPICS_LIMIT cfg) ts (topics (wss1 ! pos)))) \<le> WS_TOPICS_LIMIT cfg"
    by (rule fill_limit)
  then have "within_limit cfg (wss1[pos := (wss1 ! pos)\<lparr>topics :=
       snd (fill (WS_TOPICS_LIMIT cfg) ts (topics (wss1 ! pos))), topics_changed := True\<rparr>])"
    by (intro within_limit_update[OF l1]) simp
  then show ?case using eq Cons.IH by (simp add: Let_def)
qed

lemma add_topics_limit:
  "within_limit cfg (websockets p) \<Longrightarrow> within_limit cfg (websockets (snd (add_topics cfg now p ts)))"
  using add_loop_limit [of cfg "websockets p" now "running p" "[0..<MAX_WEBSOCKETS cfg]"]
  by (simp add: add_topics_def Let_def split_def)

section \<open>Deleting topics and consolidating\<close>


lemma fold_dict_del: "fold dict_del ks d = filter (\<lambda>(k, v). k \<notin> set ks) d"
proof (induction ks arbitrary: d)
  case Nil
  show ?case by simp
next
  case (Cons k ks)
  have "fold dict_del (k # ks) d = filter (\<lambda>(k', v). k' \<notin> set ks) (dict_del k d)"
    by (simp add: Cons.IH)
  also have "\<dots> = filter (\<lambda>(k', v). k' \<notin> set (k # ks)) d"
    unfolding dict_del_def filter_filter by (rule filter_cong) auto
  finally show ?case .
qed

lemma shrunk_refl: "shrunk w w"
  unfolding shrunk_def by (rule exI[of _ "\<lambda>x. True"]) simp

lemma delete_topics_shrunk: "list_all2 shrunk (delete_topics ks wss) wss"
proof (induction wss arbitrary: ks)
  case Nil
  show ?case by simp
next
  case (Cons w wss)
  have "shrunk (w\<lparr>topics := fold dict_del xs (topics w), topics_changed := True\<rparr>) w" for xs
    unfolding shrunk_def fold_dict_del by auto
  then show ?case using Cons.IH by (simp add: Let_def shrunk_refl)
qed

lemma shrunk_length: "shrunk w' w \<Longrightarrow> length (topics w') \<le> length (topics w)"
  by (auto simp: shrunk_def)

lemma shrunk_keys: "shrunk w' w \<Longrightarrow> topic_keys w' \<subseteq> topic_keys w"
  by (auto simp: shrunk_def topic_keys_def dict_keys_def)

lemma delete_topics_limit:
  assumes "within_limit cfg wss"
  shows "within_limit cfg (delete_topics ks wss)"
proof -
  have "list_all2 shrunk (delete_topics ks wss) wss" by (rule delete_topics_shrunk)
  then have len: "length (delete_topics ks wss) = length wss"
    and nth: "\<And>i. i < length wss \<Longrightarrow> shrunk (delete_topics ks wss ! i) (wss ! i)"
    by (simp_all add: list_all2_conv_all_nth)
  show ?thesis
    unfolding within_limit_def
  proof
    fix w' assume "w' \<in> set (delete_topics ks wss)"
    then obtain i where i: "i < length wss" and w': "w' = delete_topics ks wss ! i"
      using len by (auto simp: in_set_conv_nth)
    have "length (topics w') \<le> length (topics (wss ! i))"
      using nth [OF i] w' by (simp add: shrunk_length)
    moreover have "length (topics (wss ! i)) \<le> WS_TOPICS_LIMIT cfg"
      using assms i by (simp add: within_limit_def)
    ultimately show "length (topics w') \<le> WS_TOPICS_LIMIT cfg" by simp
  qed
qed


lemma consolidate_prefix:
  "\<exists>m \<le> length wss.
     consolidate cfg wss rc cr =
       (take m wss,
        rc @ concat (map (\<lambda>w. dict_values (topics w)) (rev (drop m wss))),
        cr @ map StopTask (rev (drop m wss)))
     \<and> (m = 0 \<or> (m - 1) * WS_TOPICS_LIMIT cfg < total_topics (take m wss))
     \<and> (\<forall>j. m < j \<and> j \<le> length wss \<longrightarrow>
            total_topics (take j wss) \<le> (j - 1) * WS_TOPICS_LIMIT cfg)"
proof (induction cfg wss rc cr rule: consolidate.induct)
  case (1 cfg wss rc cr)
  let ?L = "WS_TOPICS_LIMIT cfg"
  show ?case
  proof (cases "wss \<noteq> [] \<and> total_topics wss \<le> (length wss - 1) * ?L")
    case False
    have "consolidate cfg wss rc cr =
        (if wss \<noteq> [] \<and> total_topics wss \<le> (length wss - 1) * ?L
         then consolidate cfg (butlast wss) (rc @ dict_values (topics (last wss)))
                (cr @ [StopTask (last wss)])
         else (wss, rc, cr))"
      by (rule consolidate.simps)
    also have "\<dots> = (wss, rc, cr)" using False by (rule if_not_P)
    finally have "consolidate cfg wss rc cr = (wss, rc, cr)" .
    moreover have "length wss = 0 \<or> (length wss - 1) * ?L < total_topics (take (length wss) wss)"
      using False by auto
    ultimately show ?thesis by (intro exI[of _ "length wss"]) simp
  next
    case True
    let ?rc = "rc @ dict_values (topics (last wss))"
    let ?cr = "cr @ [StopTask (last wss)]"
    from 1 [OF True] obtain m where m: "m \<le> length (butlast wss)"
      and eq: "consolidate cfg (butlast wss) ?rc ?cr =
       (take m (butlast wss),
        ?rc @ concat (map (\<lambda>w. dict_values (topics w)) (rev (drop m (butlast wss)))),
        ?cr @ map StopTask (rev (drop m (butlast wss))))"
      and stop: "m = 0 \<or> (m - 1) * ?L < total_topics (take m (butlast wss))"
      and popped: "\<forall>j. m < j \<and> j \<le> length (butlast wss) \<longrightarrow>
            total_topics (take j (butlast wss)) \<le> (j - 1) * ?L"
      by blast
    have wss: "wss = butlast wss @ [last wss]" using True by simp
    have tk: "take j (butlast wss) = take j wss" if "j \<le> length (butlast wss)" for j
      using that by (simp add: butlast_conv_take min_absorb1)
    have dr: "drop m wss = drop m (butlast wss) @ [last wss]"
      using m by (subst wss) simp
    have "consolidate cfg wss rc cr =
        (if wss \<noteq> [] \<and> total_topics wss \<le> (length wss - 1) * ?L
         then consolidate cfg (butlast wss) ?rc ?cr
         else (wss, rc, cr))"
      by (rule consolidate.simps)
    also have "\<dots> = consolidate cfg (butlast wss) ?rc ?cr" using True by (rule if_P)
    finally have c: "consolidate cfg wss rc cr = consolidate cfg (butlast wss) ?rc ?cr" .
    have 1: "consolidate cfg wss rc cr =
       (take m wss,
        rc @ concat (map (\<lambda>w. dict_values (topics w)) (rev (drop m wss))),
        cr @ map StopTask (rev (drop m wss)))"
      using c eq tk[OF m] by (simp add: dr)
    have 2: "m = 0 \<or> (m - 1) * ?L < total_topics (take m wss)"
      using stop tk[OF m] by simp
    have 3: "\<forall>j. m < j \<and> j \<le> length wss \<longrightarrow> total_topics (take j wss) \<le> (j - 1) * ?L"
    proof (intro allI impI)
      fix j assume j: "m < j \<and> j \<le> length wss"
      show "total_topics (take j wss) \<le> (j - 1) * ?L"
      proof (cases "j = length wss")
        case True
        then show ?thesis using \<open>wss \<noteq> [] \<and> total_topics wss \<le> (length wss - 1) * ?L\<close> by simp
      next
        case False
        with j have "j \<le> length (butlast wss)" by auto
        then show ?thesis using popped j tk by auto
      qed
    qed
    have "m \<le> length wss" using m by simp
    with 1 2 3 show ?thesis by blast
  qed
qed

section \<open>The handling loop leaves the topic map alone\<close>

lemma handle_ping_topics: "topics (fst (handle_ping cfg now now' w)) = topics w"
  by (simp add: handle_ping_def send_def request_reconnect_def Let_def split: option.splits)

lemma unlisten_removed_topics: "topics (fst (unlisten_removed tok n cur w)) = topics w"
  by (cases "ws w") (simp_all add: unlisten_removed_def send_def Let_def)

lemma listen_added_topics: "topics (fst (listen_added tok n cur w)) = topics w"
  by (cases "ws w") (simp_all add: listen_added_def send_def Let_def)

lemma handle_topics_topics: "topics (fst (handle_topics tok nonce w)) = topics w"
proof (cases "topics_changed w")
  case False
  then show ?thesis by (simp add: handle_topics_def)
next
  case True
  let ?w1 = "w\<lparr>topics_changed := False\<rparr>"
  let ?cur = "set_of (dict_values (topics ?w1))"
  obtain w2 e2 s2 where u: "unlisten_removed tok (nonce 0) ?cur ?w1 = (w2, e2, s2)"
    by (cases "unlisten_removed tok (nonce 0) ?cur ?w1")
  obtain w3 e3 s3 where l: "listen_added tok (nonce (length e2)) ?cur w2 = (w3, e3, s3)"
    by (cases "listen_added tok (nonce (length e2)) ?cur w2")
  have "topics w2 = topics w" using unlisten_removed_topics [of tok "nonce 0" ?cur ?w1] u by simp
  moreover have "topics w3 = topics w2" using listen_added_topics [of tok "nonce (length e2)" ?cur w2] l by simp
  ultimately show ?thesis using True u l by (simp add: handle_topics_def Let_def)
qed

lemma handle_recv_topics: "topics (fst (handle_recv loads now' w r)) = topics w"
  by (simp add: handle_recv_def request_reconnect_def split: option.splits json.splits sum.splits)

lemma stop_topics: "topics (stop w) = topics w"
  by (simp add: stop_def)

lemma iteration_topics: "topics (fst (iteration cfg loads k w)) = topics w"
proof -
  obtain w1 e1 s1 where p: "handle_ping cfg (time_ping k) (time_ping_reconnect k) w = (w1, e1, s1)"
    by (cases "handle_ping cfg (time_ping k) (time_ping_reconnect k) w")
  obtain w2 e2 s2 where t: "handle_topics (auth_token k) (nonces k) w1 = (w2, e2, s2)"
    by (cases "handle_topics (auth_token k) (nonces k) w1")
  obtain w3 e3 s3 where r: "handle_recv loads (time_recv_reconnect k)
                (interrupted k w2) (received k) = (w3, e3, s3)"
    by (cases "handle_recv loads (time_recv_reconnect k) (interrupted k w2) (received k)")
  have 1: "topics w1 = topics w"
    using handle_ping_topics [of cfg "time_ping k" "time_ping_reconnect k" w] p by simp
  have 2: "topics w2 = topics w1"
    using handle_topics_topics [of "auth_token k" "nonces k" w1] t by simp
  have 3: "topics w3 = topics w2"
    using handle_recv_topics [of loads "time_recv_reconnect k" "interrupted k w2" "received k"] r
    by (simp add: interrupted_def stop_topics)
  show ?thesis using p t r 1 2 3 by (simp add: iteration_def)
qed

lemma inner_loop_topics: "topics (fst (inner_loop cfg loads w ks)) = topics w"
proof (induction ks arbitrary: w)
  case Nil
  show ?case by simp
next
  case (Cons k ks)
  obtain w1 e1 s1 where i: "iteration cfg loads k w = (w1, e1, s1)"
    by (cases "iteration cfg loads k w")
  have 1: "topics w1 = topics w" using iteration_topics [of cfg loads k w] i by simp
  show ?case using i 1 Cons.IH [of w1]
    by (cases s1) (simp_all add: split_def Let_def)
qed

lemma session_topics: "topics (fst (session cfg loads tr ks w)) = topics w"
  using inner_loop_topics [of cfg loads "publish tr w" ks]
  by (simp add: session_def split_def cleanup_def publish_def Let_def)

lemma handle_loop_topics: "topics (fst (handle_loop cfg loads w ss)) = topics w"
proof (induction ss arbitrary: w)
  case Nil
  show ?case by simp
next
  case (Cons s ss)
  obtain tr ks where s: "s = (tr, ks)" by (cases s)
  show ?case using Cons.IH [of "fst (session cfg loads tr ks w)"] session_topics [of cfg loads tr ks w]
    by (simp add: s split_def Let_def)
qed

lemma handle_topics_unchanged: "topics (fst (handle cfg loads w ss)) = topics w"
  using handle_loop_topics [of cfg loads "w\<lparr>closed := False\<rparr>" ss] by (simp add: handle_def)

section \<open>An undisturbed call keeps the keys of the connections apart\<close>

lemma shrunk_same: "topics w' = topics w \<Longrightarrow> shrunk w' w"
  unfolding shrunk_def by (rule exI[of _ "\<lambda>x. True"]) simp

lemma shrunk_well_formed: "shrunk w' w \<Longrightarrow> well_formed w \<Longrightarrow> well_formed w'"
  by (auto simp: shrunk_def well_formed_def dict_keys_def distinct_map_filter)

lemma shrunk_all_well_formed:
  assumes "list_all2 shrunk wss' wss" and "\<forall>w \<in> set wss. well_formed w"
  shows "\<forall>w \<in> set wss'. well_formed w"
proof
  fix w' assume "w' \<in> set wss'"
  then obtain i where i: "i < length wss'" and w': "w' = wss' ! i" by (auto simp: in_set_conv_nth)
  have "shrunk (wss' ! i) (wss ! i)" and "i < length wss"
    using assms(1) i by (simp_all add: list_all2_conv_all_nth)
  then show "well_formed w'" using assms(2) w' shrunk_well_formed by auto
qed

lemma shrunk_all_within_limit:
  assumes "list_all2 shrunk wss' wss" and "within_limit cfg wss"
  shows "within_limit cfg wss'"
  unfolding within_limit_def
proof
  fix w' assume "w' \<in> set wss'"
  then obtain i where i: "i < length wss'" and w': "w' = wss' ! i" by (auto simp: in_set_conv_nth)
  have s: "shrunk (wss' ! i) (wss ! i)" and l: "i < length wss"
    using assms(1) i by (simp_all add: list_all2_conv_all_nth)
  have "length (topics w') \<le> length (topics (wss ! i))" using s w' by (simp add: shrunk_length)
  moreover have "length (topics (wss ! i)) \<le> WS_TOPICS_LIMIT cfg"
    using assms(2) l by (simp add: within_limit_def)
  ultimately show "length (topics w') \<le> WS_TOPICS_LIMIT cfg" by simp
qed

lemma shrunk_all_unique:
  assumes "list_all2 shrunk wss' wss" and "unique_topics wss"
  shows "unique_topics wss'"
  unfolding unique_topics_def
proof (intro allI impI)
  fix i j assume i: "i < length wss'" and j: "j < length wss'" and ne: "i \<noteq> j"
  have len: "length wss' = length wss" using assms(1) by (rule list_all2_lengthD)
  have "topic_keys (wss' ! i) \<subseteq> topic_keys (wss ! i)"
    using assms(1) i by (simp add: list_all2_conv_all_nth shrunk_keys)
  moreover have "topic_keys (wss' ! j) \<subseteq> topic_keys (wss ! j)"
    using assms(1) j by (simp add: list_all2_conv_all_nth shrunk_keys)
  moreover have "topic_keys (wss ! i) \<inter> topic_keys (wss ! j) = {}"
    using assms(2) i j ne len by (simp add: unique_topics_def)
  ultimately show "topic_keys (wss' ! i) \<inter> topic_keys (wss' ! j) = {}" by blast
qed

lemma unique_topics_take: "unique_topics wss \<Longrightarrow> unique_topics (take m wss)"
  by (simp add: unique_topics_def)

lemma unique_topics_append:
  "unique_topics wss \<Longrightarrow> topic_keys w = {} \<Longrightarrow> unique_topics (wss @ [w])"
  by (auto simp: unique_topics_def nth_append)

lemma unique_topics_update:
  assumes "unique_topics wss"
    and "\<forall>j < length wss. j \<noteq> pos \<longrightarrow> topic_keys w' \<inter> topic_keys (wss ! j) = {}"
  shows "unique_topics (wss[pos := w'])"
  unfolding unique_topics_def
proof (intro allI impI)
  fix i j assume i: "i < length (wss[pos := w'])" and j: "j < length (wss[pos := w'])" and ne: "i \<noteq> j"
  show "topic_keys (wss[pos := w'] ! i) \<inter> topic_keys (wss[pos := w'] ! j) = {}"
  proof (cases "i = pos")
    case True
    then show ?thesis using assms(2) i j ne by (simp add: nth_list_update)
  next
    case False
    show ?thesis
    proof (cases "j = pos")
      case True
      then show ?thesis using assms(2) i j ne by (auto simp: nth_list_update)
    next
      case f: False
      then show ?thesis using False assms(1) i j ne by (simp add: unique_topics_def)
    qed
  qed
qed

lemma fold_set_add_keys_distinct:
  "distinct (map topic_str s) \<Longrightarrow> distinct (map topic_str (fold set_add ts s))"
proof (induction ts arbitrary: s)
  case Nil
  then show ?case by simp
next
  case (Cons t ts)
  have "distinct (map topic_str (set_add t s))"
    using Cons.prems by (auto simp: set_add_def topic_mem_def)
  then show ?case using Cons.IH by simp
qed

lemma set_of_keys_distinct: "distinct (map topic_str (set_of ts))"
  using fold_set_add_keys_distinct [of "[]" ts] by (simp add: set_of_def set_update_def)

lemma set_difference_keys_distinct:
  "distinct (map topic_str s) \<Longrightarrow> distinct (map topic_str (set_difference s other))"
  by (simp add: set_difference_def distinct_map_filter)

lemma well_formed_keys_held:
  assumes "w \<in> set wss" and "well_formed w"
  shows "topic_keys w \<subseteq> set (map topic_str (held wss))"
proof
  fix k assume "k \<in> topic_keys w"
  then obtain t where kt: "(k, t) \<in> set (topics w)" by (auto simp: topic_keys_def dict_keys_def)
  then have "k = topic_str t" using assms(2) by (auto simp: well_formed_def)
  moreover have "t \<in> set (held wss)" using kt assms(1) by (force simp: held_def dict_values_def)
  ultimately show "k \<in> set (map topic_str (held wss))" by simp
qed

lemma add_loop_unique:
  assumes "unique_topics wss" and "\<forall>w \<in> set wss. well_formed w"
    and "distinct (map topic_str ts)"
    and "\<forall>w \<in> set wss. topic_keys w \<inter> set (map topic_str ts) = {}"
  shows "unique_topics (snd (add_loop cfg now run ixs ts wss))
       \<and> (\<forall>w \<in> set (snd (add_loop cfg now run ixs ts wss)). well_formed w)"
  using assms
proof (induction ixs arbitrary: ts wss)
  case Nil
  then show ?case by simp
next
  case (Cons i ixs)
  let ?L = "WS_TOPICS_LIMIT cfg"
  obtain wss1 pos where pos: "pos < length wss1"
    and w1: "wss1 = wss \<or> (\<exists>w. wss1 = wss @ [w] \<and> topics w = [])"
    and eq: "add_loop cfg now run (i # ixs) ts wss =
          (let d = fill ?L ts (topics (wss1 ! pos));
               wss2 = wss1[pos := (wss1 ! pos)\<lparr>topics := snd d, topics_changed := True\<rparr>]
           in if fst d = [] then (None, wss2) else add_loop cfg now run ixs (fst d) wss2)"
    using add_loop_unfold [where wss=wss and cfg=cfg and now=now and run=run and i=i
        and ixs=ixs and ts=ts]
    by (elim exE conjE) (rule that)
  have empty_keys: "topic_keys w = {}" if "topics w = []" for w
    using that by (simp add: topic_keys_def dict_keys_def)
  have empty_wf: "well_formed w" if "topics w = []" for w
    using that by (simp add: well_formed_def dict_keys_def)
  have u1: "unique_topics wss1"
    using w1 Cons.prems(1) unique_topics_append empty_keys by blast
  have f1: "\<forall>w \<in> set wss1. well_formed w"
    using w1 Cons.prems(2) empty_wf by auto
  have k1: "\<forall>w \<in> set wss1. topic_keys w \<inter> set (map topic_str ts) = {}"
  proof
    fix w assume "w \<in> set wss1"
    then consider "w \<in> set wss" | "topics w = []" using w1 by auto
    then show "topic_keys w \<inter> set (map topic_str ts) = {}"
    proof cases
      case 1
      then show ?thesis using Cons.prems(4) by blast
    next
      case 2
      then show ?thesis using empty_keys by simp
    qed
  qed
  let ?old = "topics (wss1 ! pos)"
  let ?n = "?L - length ?old"
  let ?new = "?old @ map (\<lambda>t. (topic_str t, t)) (take ?n ts)"
  let ?w = "(wss1 ! pos)\<lparr>topics := ?new, topics_changed := True\<rparr>"
  let ?wss2 = "wss1[pos := ?w]"
  have mem: "wss1 ! pos \<in> set wss1" using pos by simp
  have dis: "set (map topic_str ts) \<inter> set (dict_keys ?old) = {}"
    using k1 mem by (auto simp: topic_keys_def)
  have fl: "fill ?L ts ?old = (drop ?n ts, ?new)"
    using fill_fresh [OF Cons.prems(3) dis] .
  have eq': "add_loop cfg now run (i # ixs) ts wss =
      (if drop ?n ts = [] then (None, ?wss2) else add_loop cfg now run ixs (drop ?n ts) ?wss2)"
    using eq by (simp add: fl Let_def)
  have keys_w: "topic_keys ?w = topic_keys (wss1 ! pos) \<union> set (map topic_str (take ?n ts))"
    by (auto simp: topic_keys_def dict_keys_def)
  have sub: "set (map topic_str (take ?n ts)) \<subseteq> set (map topic_str ts)"
    by (metis set_take_subset take_map)
  have wf_w: "well_formed ?w"
  proof -
    have "distinct (dict_keys ?old)" and "\<forall>(k, t) \<in> set ?old. k = topic_str t"
      using f1 mem by (auto simp: well_formed_def)
    moreover have "distinct (map topic_str (take ?n ts))"
      using Cons.prems(3) by (simp add: take_map[symmetric] distinct_take)
    moreover have "set (dict_keys ?old) \<inter> set (map topic_str (take ?n ts)) = {}"
      using dis sub by blast
    ultimately show ?thesis
      by (auto simp: well_formed_def dict_keys_def comp_def)
  qed
  have u2: "unique_topics ?wss2"
  proof (rule unique_topics_update [OF u1], intro allI impI)
    fix j assume j: "j < length wss1" and ne: "j \<noteq> pos"
    have "topic_keys (wss1 ! pos) \<inter> topic_keys (wss1 ! j) = {}"
      using u1 pos j ne by (simp add: unique_topics_def)
    moreover have "topic_keys (wss1 ! j) \<inter> set (map topic_str ts) = {}"
      using k1 j by simp
    ultimately show "topic_keys ?w \<inter> topic_keys (wss1 ! j) = {}"
      unfolding keys_w using sub by blast
  qed
  have set2: "set ?wss2 \<subseteq> insert ?w (set wss1)" by (rule set_update_subset_insert)
  have f2: "\<forall>w \<in> set ?wss2. well_formed w" using set2 f1 wf_w by blast
  show ?case
  proof (cases "drop ?n ts = []")
    case True
    then show ?thesis using eq' u2 f2 by simp
  next
    case False
    have d2: "distinct (map topic_str (drop ?n ts))"
      using Cons.prems(3) by (simp add: drop_map[symmetric] distinct_drop)
    have td: "set (map topic_str (take ?n ts)) \<inter> set (map topic_str (drop ?n ts)) = {}"
      using Cons.prems(3) by (metis append_take_drop_id distinct_append map_append)
    have sub2: "set (map topic_str (drop ?n ts)) \<subseteq> set (map topic_str ts)"
      by (metis set_drop_subset drop_map)
    have k2: "\<forall>w \<in> set ?wss2. topic_keys w \<inter> set (map topic_str (drop ?n ts)) = {}"
    proof
      fix w assume "w \<in> set ?wss2"
      then consider "w = ?w" | "w \<in> set wss1" using set2 by blast
      then show "topic_keys w \<inter> set (map topic_str (drop ?n ts)) = {}"
      proof cases
        case 1
        have "topic_keys (wss1 ! pos) \<inter> set (map topic_str ts) = {}" using k1 mem by simp
        then show ?thesis unfolding 1 keys_w using td sub2 by blast
      next
        case 2
        then show ?thesis using k1 sub2 by blast
      qed
    qed
    show ?thesis using eq' False Cons.IH [OF u2 f2 d2 k2] by simp
  qed
qed

lemma add_topics_unique:
  assumes "unique_topics (websockets p)" and "\<forall>w \<in> set (websockets p). well_formed w"
  shows "unique_topics (websockets (snd (add_topics cfg now p ts)))
       \<and> (\<forall>w \<in> set (websockets (snd (add_topics cfg now p ts))). well_formed w)"
proof -
  let ?ts = "set_difference (set_of ts) (held (websockets p))"
  have d: "distinct (map topic_str ?ts)"
    by (intro set_difference_keys_distinct set_of_keys_distinct)
  have k: "\<forall>w \<in> set (websockets p). topic_keys w \<inter> set (map topic_str ?ts) = {}"
  proof
    fix w assume w: "w \<in> set (websockets p)"
    have "topic_keys w \<subseteq> set (map topic_str (held (websockets p)))"
      using w assms(2) by (intro well_formed_keys_held) auto
    moreover have "set (map topic_str ?ts) \<inter> set (map topic_str (held (websockets p))) = {}"
      by (auto simp: set_difference_def topic_mem_def)
    ultimately show "topic_keys w \<inter> set (map topic_str ?ts) = {}" by blast
  qed
  show ?thesis
    using add_loop_unique [OF assms d k, of cfg now "running p" "[0..<MAX_WEBSOCKETS cfg]"] assms
    by (simp add: add_topics_def Let_def split_def)
qed

section \<open>Reachable pools: the limit, the shared topic, consolidation\<close>

lemma remove_topics_websockets:
  "\<exists>m. websockets (remove_topics cfg p ks) = take m (delete_topics (remdups ks) (websockets p))"
proof -
  obtain m where "consolidate cfg (delete_topics (remdups ks) (websockets p)) [] [] =
       (take m (delete_topics (remdups ks) (websockets p)),
        [] @ concat (map (\<lambda>w. dict_values (topics w))
               (rev (drop m (delete_topics (remdups ks) (websockets p))))),
        [] @ map StopTask (rev (drop m (delete_topics (remdups ks) (websockets p)))))"
    using consolidate_prefix [of "delete_topics (remdups ks) (websockets p)" cfg "[]" "[]"]
    by (elim exE conjE)
  then have "websockets (remove_topics cfg p ks)
      = take m (delete_topics (remdups ks) (websockets p))"
    by (simp add: remove_topics_def)
  then show ?thesis by blast
qed

lemma within_limit_take: "within_limit cfg wss \<Longrightarrow> within_limit cfg (take m wss)"
  unfolding within_limit_def by (meson in_set_takeD)

lemma well_formed_take:
  "\<forall>w \<in> set wss. well_formed w \<Longrightarrow> \<forall>w \<in> set (take m wss). well_formed w"
  by (meson in_set_takeD)

lemma shrunk_map:
  "(\<And>w. topics (f w) = topics w) \<Longrightarrow> list_all2 shrunk (map f wss) wss"
  by (simp add: list_all2_conv_all_nth shrunk_same)

lemma shrunk_list_update:
  "i < length wss \<Longrightarrow> topics w' = topics (wss ! i) \<Longrightarrow> list_all2 shrunk (wss[i := w']) wss"
  by (simp add: list_all2_conv_all_nth nth_list_update shrunk_same shrunk_refl)

text \<open>
  In a pool that is not running \<open>add_topics\<close> never waits, and the call by steps is the
  call as a whole.
\<close>

lemma add_steps_not_running:
  "add_steps cfg now False ixs ts wss =
     (Done (fst (add_loop cfg now False ixs ts wss)), snd (add_loop cfg now False ixs ts wss))"
proof (induction ixs arbitrary: ts wss)
  case Nil
  show ?case by simp
next
  case (Cons i ixs)
  show ?case
  proof (cases "i < length wss")
    case True
    then show ?thesis by (simp add: assign_def Let_def split_def Cons.IH)
  next
    case False
    then show ?thesis by (simp add: assign_def Let_def split_def Cons.IH)
  qed
qed

lemma add_begin_not_running:
  "\<not> running p \<Longrightarrow>
     add_begin cfg now p ts = (Done (fst (add_topics cfg now p ts)), snd (add_topics cfg now p ts))"
  by (simp add: add_begin_def add_topics_def add_steps_not_running Let_def split_def)

lemma assign_limit:
  assumes "within_limit cfg wss" and "pos < length wss"
  shows "within_limit cfg (snd (assign cfg pos ts wss))"
proof -
  have "length (topics (wss ! pos)) \<le> WS_TOPICS_LIMIT cfg"
    using assms by (simp add: within_limit_def)
  then have "length (snd (fill (WS_TOPICS_LIMIT cfg) ts (topics (wss ! pos)))) \<le> WS_TOPICS_LIMIT cfg"
    by (rule fill_limit)
  then have "within_limit cfg (wss[pos := (wss ! pos)\<lparr>topics :=
       snd (fill (WS_TOPICS_LIMIT cfg) ts (topics (wss ! pos))), topics_changed := True\<rparr>])"
    by (intro within_limit_update [OF assms(1)]) simp
  then show ?thesis by (simp add: assign_def Let_def split_def)
qed

lemma add_steps_limit:
  "within_limit cfg wss \<Longrightarrow> within_limit cfg (snd (add_steps cfg now run ixs ts wss))"
proof (induction ixs arbitrary: ts wss)
  case Nil
  then show ?case by simp
next
  case (Cons i ixs)
  show ?case
  proof (cases "i < length wss")
    case True
    obtain rest wss2 where a: "assign cfg i ts wss = (rest, wss2)"
      by (cases "assign cfg i ts wss")
    have "within_limit cfg wss2" using assign_limit [OF Cons.prems True, of ts] a by simp
    then show ?thesis using True a Cons.IH [of wss2 rest] by simp
  next
    case False
    show ?thesis
    proof (cases run)
      case True
      then show ?thesis using False Cons.prems by simp
    next
      case r: False
      let ?wss1 = "wss @ [Websocket cfg (now i) i]"
      obtain rest wss2 where a: "assign cfg (length wss) ts ?wss1 = (rest, wss2)"
        by (cases "assign cfg (length wss) ts ?wss1")
      have "within_limit cfg ?wss1" using Cons.prems by (intro within_limit_append) simp_all
      then have "within_limit cfg wss2"
        using assign_limit [of cfg ?wss1 "length wss" ts] a by simp
      then show ?thesis using False r a Cons.IH [of wss2 rest] by simp
    qed
  qed
qed

lemma add_begin_limit:
  "within_limit cfg (websockets p) \<Longrightarrow> within_limit cfg (websockets (snd (add_begin cfg now p ts)))"
  using add_steps_limit [of cfg "websockets p" now "running p" "[0..<MAX_WEBSOCKETS cfg]"]
  by (simp add: add_begin_def Let_def split_def)

lemma add_resume_limit:
  assumes "within_limit cfg (websockets p)" and "topics (frame_ws fr) = []"
  shows "within_limit cfg (websockets (snd (add_resume cfg now p fr)))"
proof -
  let ?wss1 = "websockets p @ [start (frame_ws fr)]"
  obtain rest wss2 where a: "assign cfg (length (websockets p)) (frame_topics fr) ?wss1 = (rest, wss2)"
    by (cases "assign cfg (length (websockets p)) (frame_topics fr) ?wss1")
  have "within_limit cfg ?wss1" using assms by (intro within_limit_append) simp_all
  then have "within_limit cfg wss2"
    using assign_limit [of cfg ?wss1 "length (websockets p)" "frame_topics fr"] a by simp
  then show ?thesis
    using a add_steps_limit [of cfg wss2 now "running p" "frame_ixs fr" rest]
    by (simp add: add_resume_def split_def Let_def)
qed

lemma add_steps_frame:
  "add_steps cfg now run ixs ts wss = (Awaits fr, wss') \<Longrightarrow> topics (frame_ws fr) = []"
proof (induction ixs arbitrary: ts wss)
  case Nil
  then show ?case by simp
next
  case (Cons i ixs)
  show ?case
  proof (cases "i < length wss")
    case True
    obtain rest wss2 where a: "assign cfg i ts wss = (rest, wss2)"
      by (cases "assign cfg i ts wss")
    show ?thesis using Cons.prems True a Cons.IH [of rest wss2]
      by (simp split: if_splits)
  next
    case False
    show ?thesis
    proof (cases run)
      case True
      then show ?thesis using False Cons.prems by auto
    next
      case r: False
      obtain rest wss2 where a: "assign cfg (length wss) ts (wss @ [Websocket cfg (now i) i]) = (rest, wss2)"
        by (cases "assign cfg (length wss) ts (wss @ [Websocket cfg (now i) i])")
      show ?thesis using Cons.prems False r a Cons.IH [of rest wss2]
        by (simp split: if_splits)
    qed
  qed
qed

lemma add_begin_frame:
  "add_begin cfg now p ts = (Awaits fr, p') \<Longrightarrow> topics (frame_ws fr) = []"
proof -
  assume a: "add_begin cfg now p ts = (Awaits fr, p')"
  let ?ts = "set_difference (set_of ts) (held (websockets p))"
  obtain r wss where s: "add_steps cfg now (running p) [0..<MAX_WEBSOCKETS cfg] ?ts (websockets p) = (r, wss)"
    by (cases "add_steps cfg now (running p) [0..<MAX_WEBSOCKETS cfg] ?ts (websockets p)")
  have "r = Awaits fr" using a s by (simp add: add_begin_def Let_def split: if_splits)
  then show ?thesis using s add_steps_frame by blast
qed

lemma add_resume_frame:
  "add_resume cfg now p fr = (Awaits fr', p') \<Longrightarrow> topics (frame_ws fr') = []"
proof -
  assume a: "add_resume cfg now p fr = (Awaits fr', p')"
  obtain rest wss2 where b: "assign cfg (length (websockets p)) (frame_topics fr)
                           (websockets p @ [start (frame_ws fr)]) = (rest, wss2)"
    by (cases "assign cfg (length (websockets p)) (frame_topics fr)
                           (websockets p @ [start (frame_ws fr)])")
  obtain r wss where s: "add_steps cfg now (running p) (frame_ixs fr) rest wss2 = (r, wss)"
    by (cases "add_steps cfg now (running p) (frame_ixs fr) rest wss2")
  have "r = Awaits fr'" using a b s by (simp add: add_resume_def Let_def split: if_splits)
  then show ?thesis using s add_steps_frame by blast
qed

lemma reaches_invariant:
  "reaches cfg p fs \<Longrightarrow>
     within_limit cfg (websockets p) \<and> (\<forall>fr \<in> set fs. topics (frame_ws fr) = [])"
proof (induction rule: reaches.induct)
  case init
  show ?case by (simp add: WebsocketPool_def within_limit_def)
next
  case (add p fs now ts r p')
  have "p' = snd (add_topics cfg now p ts)" using add.hyps(2) by simp
  then show ?case using add.IH add_topics_limit [of cfg p now ts] by simp
next
  case (begin_done p fs now ts r p')
  have "p' = snd (add_begin cfg now p ts)" using begin_done.hyps(2) by simp
  then show ?case using begin_done.IH add_begin_limit [of cfg p now ts] by simp
next
  case (begin_awaits p fs now ts fr p')
  have "p' = snd (add_begin cfg now p ts)" using begin_awaits.hyps(2) by simp
  then show ?case
    using begin_awaits.IH add_begin_limit [of cfg p now ts]
      add_begin_frame [OF begin_awaits.hyps(2)] by simp
next
  case (resume_done p fs fr now r p')
  have "p' = snd (add_resume cfg now p fr)" using resume_done.hyps(3) by simp
  moreover have "topics (frame_ws fr) = []" using resume_done.IH resume_done.hyps(2) by blast
  moreover have "set (remove1 fr fs) \<subseteq> set fs" by (rule set_remove1_subset)
  ultimately show ?case
    using resume_done.IH add_resume_limit [of cfg p fr now] by auto
next
  case (resume_awaits p fs fr now fr' p')
  have "p' = snd (add_resume cfg now p fr)" using resume_awaits.hyps(3) by simp
  moreover have "topics (frame_ws fr) = []" using resume_awaits.IH resume_awaits.hyps(2) by blast
  moreover have "set (remove1 fr fs) \<subseteq> set fs" by (rule set_remove1_subset)
  ultimately show ?case
    using resume_awaits.IH add_resume_limit [of cfg p fr now]
      add_resume_frame [OF resume_awaits.hyps(3)] by auto
next
  case (remove p fs ks)
  obtain m where m: "websockets (remove_topics cfg p ks)
      = take m (delete_topics (remdups ks) (websockets p))"
    using remove_topics_websockets by blast
  have "within_limit cfg (delete_topics (remdups ks) (websockets p))"
    using remove.IH by (intro delete_topics_limit) simp
  then show ?case unfolding m using remove.IH by (simp add: within_limit_take)
next
  case (starting p fs)
  have "list_all2 shrunk (map start (websockets p)) (websockets p)"
    by (rule shrunk_map) simp
  then show ?case using starting.IH by (simp add: pool_start_def shrunk_all_within_limit)
next
  case (stopping p fs)
  have "list_all2 shrunk (map stop (websockets p)) (websockets p)"
    by (rule shrunk_map) (simp add: stop_topics)
  then show ?case using stopping.IH by (simp add: pool_stop_def shrunk_all_within_limit)
next
  case (progress p fs i loads sessions w' es)
  have "topics w' = topics (websockets p ! i)"
    using handle_topics_unchanged [of cfg loads "websockets p ! i" sessions] progress.hyps(3)
    by simp
  then have "list_all2 shrunk ((websockets p)[i := w']) (websockets p)"
    using progress.hyps(2) by (intro shrunk_list_update)
  then show ?case using progress.IH by (simp add: shrunk_all_within_limit)
qed

lemma reachable_within_limit: "reachable cfg p \<Longrightarrow> within_limit cfg (websockets p)"
  using reaches_invariant by (auto simp: reachable_def)

text \<open>
  A call that no other task interrupts keeps the keys of different connections apart.
\<close>

lemma undisturbed_calls_unique:
  assumes "unique_topics (websockets p)" and "\<forall>w \<in> set (websockets p). well_formed w"
  shows "unique_topics (websockets (snd (add_topics cfg now p ts)))"
    and "unique_topics (websockets (remove_topics cfg p ks))"
proof -
  show "unique_topics (websockets (snd (add_topics cfg now p ts)))"
    using add_topics_unique [OF assms] by simp
  obtain m where m: "websockets (remove_topics cfg p ks)
      = take m (delete_topics (remdups ks) (websockets p))"
    using remove_topics_websockets by blast
  have "unique_topics (delete_topics (remdups ks) (websockets p))"
    using delete_topics_shrunk assms(1) by (rule shrunk_all_unique)
  then show "unique_topics (websockets (remove_topics cfg p ks))"
    unfolding m by (rule unique_topics_take)
qed

lemma fill_full: "cap \<le> length d \<Longrightarrow> fill cap ts d = (ts, d)"
  by (cases ts) simp_all

text \<open>
  C5. In every reachable pool every connection's topic map has at most
  \<open>WS_TOPICS_LIMIT\<close> entries; and the filling loop of \<open>add_topics\<close> gives nothing to a
  topic map that already has that many: it hands the request back whole and the map
  unchanged.
\<close>

theorem topics_within_limit:
  assumes "reachable cfg p"
  shows "(\<forall>w \<in> set (websockets p). length (topics w) \<le> WS_TOPICS_LIMIT cfg)
       \<and> (\<forall>ts d. WS_TOPICS_LIMIT cfg \<le> length d \<longrightarrow> fill (WS_TOPICS_LIMIT cfg) ts d = (ts, d))"
  using reachable_within_limit [OF assms] fill_full
  by (simp add: within_limit_def)

lemma consolidate_all_empty:
  "\<forall>w \<in> set wss. topics w = [] \<Longrightarrow>
     consolidate cfg wss rc cr = ([], rc, cr @ map StopTask (rev wss))"
proof (induction wss arbitrary: rc cr rule: rev_induct)
  case Nil
  show ?case by (subst consolidate.simps) simp
next
  case (snoc x xs)
  have t: "total_topics (xs @ [x]) = 0" using snoc.prems by (simp add: total_topics_def)
  have "consolidate cfg (xs @ [x]) rc cr =
      consolidate cfg xs (rc @ dict_values (topics x)) (cr @ [StopTask x])"
    by (subst consolidate.simps) (simp add: t)
  also have "\<dots> = ([], rc @ dict_values (topics x), (cr @ [StopTask x]) @ map StopTask (rev xs))"
    using snoc.prems by (intro snoc.IH) simp
  finally show ?case using snoc.prems by (simp add: dict_values_def)
qed

text \<open>
  C10. When the first loop of \<open>remove_topics\<close> leaves every connection with an empty
  topic map, the consolidation loop pops every connection: the list of connections ends
  empty, the tasks created are one \<^verbatim>\<open>stop\<close> task for each connection, from the last one
  to the first, and no \<open>add_topics\<close> task, the list of recycled topics being empty.
\<close>

theorem remove_all_topics:
  assumes "\<forall>w \<in> set (delete_topics (remdups ks) (websockets p)). topics w = []"
  shows "websockets (remove_topics cfg p ks) = []
       \<and> spawned (remove_topics cfg p ks)
           = spawned p @ map StopTask (rev (delete_topics (remdups ks) (websockets p)))"
  using consolidate_all_empty [OF assms, of cfg "[]" "[]"]
  by (simp add: remove_topics_def)

text \<open>
  C3. After the first loop of \<open>remove_topics\<close> has deleted the requested keys, the
  consolidation loop keeps some first \<open>m\<close> connections of the list exactly as the
  deletion left them and pops the others, from the last one down: every time a
  connection is popped the list is not empty and the topics of the connections still in
  it number at most \<open>(count - 1) * WS_TOPICS_LIMIT\<close>, and the loop stops at the first
  list that is empty or fails that test. For each popped connection a \<^verbatim>\<open>stop\<close> task is
  created and not waited for; the topics of the popped connections are collected in the
  order of popping, and after the loop one \<open>add_topics\<close> task with them is created when
  there are any, none otherwise.
\<close>

theorem remove_topics_consolidation:
  "\<exists>m \<le> length (delete_topics (remdups ks) (websockets p)).
      websockets (remove_topics cfg p ks) = take m (delete_topics (remdups ks) (websockets p))
    \<and> spawned (remove_topics cfg p ks) =
        spawned p
        @ map StopTask (rev (drop m (delete_topics (remdups ks) (websockets p))))
        @ (let recycled_topics = concat (map (\<lambda>w. dict_values (topics w))
                 (rev (drop m (delete_topics (remdups ks) (websockets p)))))
           in if recycled_topics \<noteq> [] then [AddTopicsTask recycled_topics] else [])
    \<and> (m = 0 \<or> (m - 1) * WS_TOPICS_LIMIT cfg
                  < total_topics (take m (delete_topics (remdups ks) (websockets p))))
    \<and> (\<forall>j. m < j \<and> j \<le> length (delete_topics (remdups ks) (websockets p)) \<longrightarrow>
          total_topics (take j (delete_topics (remdups ks) (websockets p)))
            \<le> (j - 1) * WS_TOPICS_LIMIT cfg)"
proof -
  let ?wss = "delete_topics (remdups ks) (websockets p)"
  obtain m where m: "m \<le> length ?wss"
    and c: "consolidate cfg ?wss [] [] =
       (take m ?wss, [] @ concat (map (\<lambda>w. dict_values (topics w)) (rev (drop m ?wss))),
        [] @ map StopTask (rev (drop m ?wss)))"
    and s: "m = 0 \<or> (m - 1) * WS_TOPICS_LIMIT cfg < total_topics (take m ?wss)"
    and a: "\<forall>j. m < j \<and> j \<le> length ?wss \<longrightarrow>
            total_topics (take j ?wss) \<le> (j - 1) * WS_TOPICS_LIMIT cfg"
    using consolidate_prefix [of ?wss cfg "[]" "[]"] by (elim exE conjE)
  have 1: "websockets (remove_topics cfg p ks) = take m ?wss"
    using c by (simp add: remove_topics_def)
  have 2: "spawned (remove_topics cfg p ks) =
        spawned p @ map StopTask (rev (drop m ?wss))
        @ (let recycled_topics = concat (map (\<lambda>w. dict_values (topics w)) (rev (drop m ?wss)))
           in if recycled_topics \<noteq> [] then [AddTopicsTask recycled_topics] else [])"
    using c by (simp add: remove_topics_def Let_def)
  from m 1 2 s a show ?thesis by blast
qed

lemma race_start_value:
  "race_start =
     \<lparr>running = True,
      websockets = [(demo_ws 0 [''a'', ''b''])\<lparr>handle_task := True, topics_changed := True\<rparr>,
                    (demo_ws 1 [''c''])\<lparr>handle_task := True, topics_changed := True\<rparr>],
      spawned = []\<rparr>"
  by (simp add: race_start_def add_topics_def pool_start_def demo_cfg_def WebsocketPool_def
      topic_of_def set_of_def set_update_def set_add_def set_difference_def topic_mem_def
      held_def upt_conv_Cons Websocket_def start_def dict_set_def dict_keys_def demo_ws_def)

lemma race_removed_value:
  "race_removed =
     \<lparr>running = True, websockets = [],
      spawned = [StopTask ((demo_ws 1 [''c''])\<lparr>handle_task := True, topics_changed := True\<rparr>),
                 StopTask ((demo_ws 0 [])\<lparr>handle_task := True, topics_changed := True\<rparr>),
                 AddTopicsTask [topic_of ''c'']]\<rparr>"
  by (simp add: race_removed_def race_start_value remove_topics_def demo_ws_def demo_cfg_def
      Websocket_def topic_of_def dict_keys_def dict_del_def dict_values_def consolidate.simps
      total_topics_def)

lemma race_begin:
  "add_begin demo_cfg (\<lambda>i. 0) race_removed [topic_of ''c''] = (Awaits race_frame, race_removed)"
  by (simp add: race_removed_value add_begin_def race_frame_def demo_cfg_def topic_of_def
      set_of_def set_update_def set_add_def set_difference_def topic_mem_def held_def
      upt_conv_Cons Let_def)

lemma race_first_value:
  "add_resume demo_cfg (\<lambda>i. 0) race_removed race_frame = (Done None, race_first)"
  "websockets race_first =
     [(demo_ws 0 [''c''])\<lparr>handle_task := True, topics_changed := True\<rparr>]"
  "running race_first = True"
  by (simp_all add: race_first_def race_removed_value add_resume_def assign_def race_frame_def Let_def
      demo_cfg_def topic_of_def Websocket_def start_def dict_set_def dict_keys_def demo_ws_def)

lemma race_second_value:
  "add_resume demo_cfg (\<lambda>i. 0) race_first race_frame = (Done None, race_second)"
  "websockets race_second =
     [(demo_ws 0 [''c''])\<lparr>handle_task := True, topics_changed := True\<rparr>,
      (demo_ws 0 [''c''])\<lparr>handle_task := True, topics_changed := True\<rparr>]"
  by (simp_all add: race_second_def race_first_value add_resume_def assign_def race_frame_def Let_def
      demo_cfg_def topic_of_def Websocket_def start_def dict_set_def dict_keys_def demo_ws_def)

lemma race_reaches: "reaches demo_cfg race_second []"
proof -
  have 0: "reaches demo_cfg (pool_start WebsocketPool) []"
    using reaches.init by (rule reaches.starting)
  have "add_topics demo_cfg (\<lambda>i. 0) (pool_start WebsocketPool) (map topic_of [''a'', ''b'', ''c''])
      = (fst (add_topics demo_cfg (\<lambda>i. 0) (pool_start WebsocketPool)
                (map topic_of [''a'', ''b'', ''c''])), race_start)"
    by (simp add: race_start_def)
  with 0 have 1: "reaches demo_cfg race_start []" by (rule reaches.add)
  have 2: "reaches demo_cfg race_removed []"
    unfolding race_removed_def using 1 by (rule reaches.remove)
  have 3: "reaches demo_cfg race_removed [race_frame]"
    using 2 race_begin by (rule reaches.begin_awaits)
  have 4: "reaches demo_cfg race_removed [race_frame, race_frame]"
    using 3 race_begin by (rule reaches.begin_awaits)
  have 5: "reaches demo_cfg race_first (remove1 race_frame [race_frame, race_frame])"
    using 4 _ race_first_value(1) by (rule reaches.resume_done) simp
  then have 6: "reaches demo_cfg race_first [race_frame]" by simp
  have "reaches demo_cfg race_second (remove1 race_frame [race_frame])"
    using 6 _ race_second_value(1) by (rule reaches.resume_done) simp
  then show ?thesis by simp
qed

text \<open>
  C2 says that in every pool reachable by calls of \<open>add_topics\<close> and \<open>remove_topics\<close> no
  key is in the topic maps of two connections. The code does not keep it. In a running
  pool that holds \<open>a\<close>, \<open>b\<close> and \<open>c\<close>, \<open>remove_topics(["a", "b"])\<close> pops both connections and
  leaves the detached task \<open>add_topics([c])\<close>; the caller's next \<open>add_topics([c])\<close> and that
  task both find nothing held, both construct a connection and wait for it to start, and
  both, resumed, append their connection and give it \<open>c\<close>: the reachable pool has two
  connections, each with the key \<open>c\<close>.
\<close>

theorem topics_shared_after_race:
  "reachable demo_cfg race_second
   \<and> AddTopicsTask [topic_of ''c''] \<in> set (spawned race_removed)
   \<and> add_begin demo_cfg (\<lambda>i. 0) race_removed [topic_of ''c''] = (Awaits race_frame, race_removed)
   \<and> map (\<lambda>w. dict_keys (topics w)) (websockets race_second) = [[''c''], [''c'']]"
proof -
  have "reachable demo_cfg race_second" unfolding reachable_def using race_reaches by blast
  moreover have "AddTopicsTask [topic_of ''c''] \<in> set (spawned race_removed)"
    by (simp add: race_removed_value)
  moreover have "map (\<lambda>w. dict_keys (topics w)) (websockets race_second) = [[''c''], [''c'']]"
    by (simp add: race_second_value demo_ws_def dict_keys_def)
  ultimately show ?thesis using race_begin by simp
qed

lemma demo_reached_reachable: "reachable demo_cfg demo_reached"
proof -
  have "add_topics demo_cfg (\<lambda>i. 0) WebsocketPool (map topic_of [''a'', ''b'', ''c''])
      = (fst (add_topics demo_cfg (\<lambda>i. 0) WebsocketPool (map topic_of [''a'', ''b'', ''c''])),
         demo_reached)"
    by (simp add: demo_reached_def)
  with reaches.init have "reaches demo_cfg demo_reached []" by (rule reaches.add)
  then show ?thesis unfolding reachable_def by blast
qed

lemma demo_reached_websockets:
  "websockets demo_reached =
     [(demo_ws 0 [''a'', ''b''])\<lparr>topics_changed := True\<rparr>, (demo_ws 1 [''c''])\<lparr>topics_changed := True\<rparr>]"
  by (simp add: demo_reached_def add_topics_def demo_cfg_def WebsocketPool_def topic_of_def
      set_of_def set_update_def set_add_def set_difference_def topic_mem_def held_def
      upt_conv_Cons Websocket_def dict_set_def dict_keys_def demo_ws_def)

theorem topics_within_limit_witness:
  "list_all (\<lambda>w. length (topics w) \<le> 2) (websockets demo_reached)"
  using topics_within_limit [OF demo_reached_reachable]
  by (simp add: list_all_iff demo_cfg_def)

lemma demo_remove:
  "remove_topics demo_cfg (demo_pool [[''a'', ''b''], [''c'']]) [''b''] =
     \<lparr>running = False,
      websockets = [(demo_ws 0 [''a''])\<lparr>topics_changed := True\<rparr>],
      spawned = [StopTask (demo_ws 1 [''c'']), AddTopicsTask [topic_of ''c'']]\<rparr>"
  by (simp add: remove_topics_def demo_pool_def demo_ws_def demo_cfg_def Websocket_def
      topic_of_def dict_keys_def dict_del_def dict_values_def consolidate.simps total_topics_def)

theorem remove_topics_consolidation_witness:
  "websockets (remove_topics demo_cfg (demo_pool [[''a'', ''b''], [''c'']]) [''b''])
     = [(demo_ws 0 [''a''])\<lparr>topics_changed := True\<rparr>]
   \<and> spawned (remove_topics demo_cfg (demo_pool [[''a'', ''b''], [''c'']]) [''b''])
     = [StopTask (demo_ws 1 [''c'']), AddTopicsTask [topic_of ''c'']]"
  using remove_topics_consolidation [of "[''b'']" "demo_pool [[''a'', ''b''], [''c'']]" demo_cfg]
  by (simp add: demo_remove)

theorem remove_all_topics_witness:
  "websockets (remove_topics demo_cfg (demo_pool [[''a''], [''b'']]) [''a'', ''b'']) = []
   \<and> spawned (remove_topics demo_cfg (demo_pool [[''a''], [''b'']]) [''a'', ''b''])
     = [StopTask ((demo_ws 1 [])\<lparr>topics_changed := True\<rparr>),
        StopTask ((demo_ws 0 [])\<lparr>topics_changed := True\<rparr>)]"
proof -
  have d: "delete_topics (remdups [''a'', ''b'']) (websockets (demo_pool [[''a''], [''b'']]))
     = [(demo_ws 0 [])\<lparr>topics_changed := True\<rparr>, (demo_ws 1 [])\<lparr>topics_changed := True\<rparr>]"
    by (simp add: demo_pool_def demo_ws_def Websocket_def topic_of_def dict_keys_def dict_del_def)
  have e: "\<forall>w \<in> set (delete_topics (remdups [''a'', ''b''])
            (websockets (demo_pool [[''a''], [''b'']]))). topics w = []"
    unfolding d by (simp add: demo_ws_def)
  show ?thesis using remove_all_topics [OF e, of demo_cfg] unfolding d
    by (simp add: demo_pool_def)
qed

section \<open>Synchronising the topics\<close>

lemma keys_fold_set_add:
  "topic_str ` set (fold set_add ts s) = topic_str ` set s \<union> topic_str ` set ts"
proof (induction ts arbitrary: s)
  case Nil
  show ?case by simp
next
  case (Cons t ts)
  have "topic_str ` set (set_add t s) = insert (topic_str t) (topic_str ` set s)"
    by (auto simp: set_add_def topic_mem_def)
  then show ?case by (simp add: Cons.IH)
qed

lemma keys_set_update:
  "topic_str ` set (set_update s ts) = topic_str ` set s \<union> topic_str ` set ts"
  by (simp add: set_update_def keys_fold_set_add)

lemma keys_set_of: "topic_str ` set (set_of ts) = topic_str ` set ts"
  by (simp add: set_of_def keys_set_update)

lemma keys_set_difference:
  "topic_str ` set (set_difference s other) = topic_str ` set s - topic_str ` set other"
  by (auto simp: set_difference_def topic_mem_def)

lemma set_difference_Nil: "set_difference s [] = s"
  by (simp add: set_difference_def topic_mem_def)

lemma set_update_Nil: "set_update s [] = s"
  by (simp add: set_update_def)

text \<open>
  C7, as the code has it. With the topics-changed flag not set the sync handler sends
  nothing and changes nothing. With the flag set, on a connection with a live transport,
  it clears the flag; it sends an UNLISTEN exactly when some submitted topic is no longer
  current, with those topics, and then a LISTEN exactly when some current topic is not
  submitted, with those topics (so it may send two messages, one, or none); each message
  carries the credential and the next nonce drawn; the topic map is unchanged and
  afterwards the submitted set has the keys of the current topics.
\<close>

theorem topic_sync:
  "(\<not> topics_changed w \<longrightarrow> handle_topics access_token nonce w = (w, [], Returned))
 \<and> (topics_changed w \<and> ws w = Some tr \<longrightarrow>
      (\<exists>(w'::websocket) (removed::topic list) (added::topic list).
         handle_topics access_token nonce w =
           (w',
            (if removed \<noteq> []
             then [Sent tr (Unlisten (map topic_str removed) access_token) (Some (nonce 0))]
             else [])
            @ (if added \<noteq> []
               then [Sent tr (Listen (map topic_str added) access_token)
                       (Some (nonce (if removed \<noteq> [] then 1 else 0)))]
               else []),
            Returned)
       \<and> set (map topic_str removed)
           = set (map topic_str (submitted w)) - set (map topic_str (dict_values (topics w)))
       \<and> set (map topic_str added)
           = set (map topic_str (dict_values (topics w))) - set (map topic_str (submitted w))
       \<and> \<not> topics_changed w' \<and> topics w' = topics w
       \<and> set (map topic_str (submitted w')) = set (map topic_str (dict_values (topics w)))))"
proof (intro conjI impI)
  assume "\<not> topics_changed w"
  then show "handle_topics access_token nonce w = (w, [], Returned)"
    by (simp add: handle_topics_def)
next
  assume a: "topics_changed w \<and> ws w = Some tr"
  define w1 where "w1 = w\<lparr>topics_changed := False\<rparr>"
  define current where "current = set_of (dict_values (topics w1))"
  define removed where "removed = set_difference (submitted w1) current"
  define w2 where "w2 = w1\<lparr>submitted := set_difference (submitted w1) removed\<rparr>"
  define e2 where "e2 = (if removed \<noteq> []
             then [Sent tr (Unlisten (map topic_str removed) access_token) (Some (nonce 0))]
             else [])"
  define added where "added = set_difference current (submitted w2)"
  define w3 where "w3 = w2\<lparr>submitted := set_update (submitted w2) added\<rparr>"
  define e3 where "e3 = (if added \<noteq> []
               then [Sent tr (Listen (map topic_str added) access_token)
                       (Some (nonce (if removed \<noteq> [] then 1 else 0)))]
               else [])"
  have ws1: "ws w1 = Some tr" using a by (simp add: w1_def)
  have ws2: "ws w2 = Some tr" using ws1 by (simp add: w2_def)
  have u: "unlisten_removed access_token (nonce 0) current w1 = (w2, e2, Returned)"
  proof (cases "removed = []")
    case True
    then have "w2 = w1" by (simp add: w2_def set_difference_Nil)
    then show ?thesis using True
      by (simp add: unlisten_removed_def removed_def[symmetric] e2_def)
  next
    case False
    then show ?thesis using ws1
      by (simp add: unlisten_removed_def removed_def[symmetric] e2_def w2_def send_def)
  qed
  have len: "length e2 = (if removed \<noteq> [] then 1 else 0)" by (simp add: e2_def)
  have l: "listen_added access_token (nonce (length e2)) current w2 = (w3, e3, Returned)"
  proof (cases "added = []")
    case True
    then have "w3 = w2" by (simp add: w3_def set_update_Nil)
    then show ?thesis using True
      by (simp add: listen_added_def added_def[symmetric] e3_def)
  next
    case False
    then show ?thesis using ws2 len
      by (simp add: listen_added_def added_def[symmetric] e3_def w3_def send_def)
  qed
  have h: "handle_topics access_token nonce w = (w3, e2 @ e3, Returned)"
    using a u l
    by (simp add: handle_topics_def w1_def[symmetric] current_def[symmetric] Let_def)
  let ?S = "topic_str ` set (submitted w)"
  let ?C = "topic_str ` set (dict_values (topics w))"
  have kc: "topic_str ` set current = ?C"
    by (simp add: current_def keys_set_of w1_def)
  have kr: "topic_str ` set removed = ?S - ?C"
    by (simp add: removed_def keys_set_difference kc) (simp add: w1_def)
  have k2: "topic_str ` set (submitted w2) = ?S - (?S - ?C)"
    by (simp add: w2_def keys_set_difference kr) (simp add: w1_def)
  have ka: "topic_str ` set added = ?C - ?S"
    unfolding added_def keys_set_difference kc k2 by blast
  have k3: "topic_str ` set (submitted w3) = ?C"
    unfolding w3_def using k2 ka by (simp add: keys_set_update) blast
  have f: "\<not> topics_changed w3" "topics w3 = topics w"
    by (simp_all add: w3_def w2_def w1_def)
  have r1: "set (map topic_str removed)
      = set (map topic_str (submitted w)) - set (map topic_str (dict_values (topics w)))"
    using kr by simp
  have r2: "set (map topic_str added)
      = set (map topic_str (dict_values (topics w))) - set (map topic_str (submitted w))"
    using ka by simp
  have r3: "set (map topic_str (submitted w3)) = set (map topic_str (dict_values (topics w)))"
    using k3 by simp
  have concl: "handle_topics access_token nonce w =
           (w3,
            (if removed \<noteq> []
             then [Sent tr (Unlisten (map topic_str removed) access_token) (Some (nonce 0))]
             else [])
            @ (if added \<noteq> []
               then [Sent tr (Listen (map topic_str added) access_token)
                       (Some (nonce (if removed \<noteq> [] then 1 else 0)))]
               else []),
            Returned)
       \<and> set (map topic_str removed)
           = set (map topic_str (submitted w)) - set (map topic_str (dict_values (topics w)))
       \<and> set (map topic_str added)
           = set (map topic_str (dict_values (topics w))) - set (map topic_str (submitted w))
       \<and> \<not> topics_changed w3 \<and> topics w3 = topics w
       \<and> set (map topic_str (submitted w3)) = set (map topic_str (dict_values (topics w)))"
    unfolding h e2_def e3_def by (intro conjI refl r1 r2 r3 f)
  show "\<exists>(w'::websocket) (removed::topic list) (added::topic list).
         handle_topics access_token nonce w =
           (w',
            (if removed \<noteq> []
             then [Sent tr (Unlisten (map topic_str removed) access_token) (Some (nonce 0))]
             else [])
            @ (if added \<noteq> []
               then [Sent tr (Listen (map topic_str added) access_token)
                       (Some (nonce (if removed \<noteq> [] then 1 else 0)))]
               else []),
            Returned)
       \<and> set (map topic_str removed)
           = set (map topic_str (submitted w)) - set (map topic_str (dict_values (topics w)))
       \<and> set (map topic_str added)
           = set (map topic_str (dict_values (topics w))) - set (map topic_str (submitted w))
       \<and> \<not> topics_changed w' \<and> topics w' = topics w
       \<and> set (map topic_str (submitted w')) = set (map topic_str (dict_values (topics w)))"
    by (intro exI, rule concl)
qed

lemma demo_sync:
  "handle_topics ''token'' demo_nonce ((demo_conn [''a''])\<lparr>topics_changed := True\<rparr>) =
     ((demo_conn [''a''])\<lparr>topics_changed := False, submitted := [topic_of ''a'']\<rparr>,
      [Sent 7 (Listen [''a''] ''token'') (Some ''nonce-0'')], Returned)"
  by (simp add: handle_topics_def unlisten_removed_def listen_added_def send_def demo_conn_def
      demo_ws_def Websocket_def topic_of_def demo_nonce_def set_of_def set_update_def
      set_add_def set_difference_def topic_mem_def dict_values_def Let_def)

text \<open>
  The claim C7 as stated has one UNLISTEN and then one LISTEN sent whenever the flag is
  set. On a fresh transport nothing is submitted and the connection holds the topic
  \<open>a\<close>: the handler sends the LISTEN alone, and no UNLISTEN with an empty list.
\<close>

theorem topic_sync_counterexample:
  "fst (snd (handle_topics ''token'' demo_nonce ((demo_conn [''a''])\<lparr>topics_changed := True\<rparr>)))
     = [Sent 7 (Listen [''a''] ''token'') (Some ''nonce-0'')]"
  by (simp add: demo_sync)

theorem topic_sync_witness:
  "handle_topics ''token'' demo_nonce ((demo_conn [''a''])\<lparr>topics_changed := True\<rparr>) =
     ((demo_conn [''a''])\<lparr>topics_changed := False, submitted := [topic_of ''a'']\<rparr>,
      [Sent 7 (Listen [''a''] ''token'') (Some ''nonce-0'')], Returned)
   \<and> handle_topics ''token'' demo_nonce (demo_conn [''a'']) = (demo_conn [''a''], [], Returned)"
  using topic_sync [of "(demo_conn [''a''])\<lparr>topics_changed := True\<rparr>" "''token''" demo_nonce 7]
    topic_sync [of "demo_conn [''a'']" "''token''" demo_nonce 7]
  by (simp add: demo_sync) (simp add: demo_conn_def demo_ws_def Websocket_def)

section \<open>Keepalive, receiving and reconnecting\<close>

lemma handle_ping_wire: "list_all on_wire (fst (snd (handle_ping cfg now now' w)))"
  by (cases "ws w") (simp_all add: handle_ping_def send_def Let_def)

lemma unlisten_removed_wire: "list_all on_wire (fst (snd (unlisten_removed tok n cur w)))"
  by (cases "ws w") (simp_all add: unlisten_removed_def send_def Let_def)

lemma listen_added_wire: "list_all on_wire (fst (snd (listen_added tok n cur w)))"
  by (cases "ws w") (simp_all add: listen_added_def send_def Let_def)

lemma handle_topics_wire: "list_all on_wire (fst (snd (handle_topics tok nonce w)))"
proof (cases "topics_changed w")
  case False
  then show ?thesis by (simp add: handle_topics_def)
next
  case True
  let ?w1 = "w\<lparr>topics_changed := False\<rparr>"
  let ?cur = "set_of (dict_values (topics ?w1))"
  obtain w2 e2 s2 where u: "unlisten_removed tok (nonce 0) ?cur ?w1 = (w2, e2, s2)"
    by (cases "unlisten_removed tok (nonce 0) ?cur ?w1")
  obtain w3 e3 s3 where l: "listen_added tok (nonce (length e2)) ?cur w2 = (w3, e3, s3)"
    by (cases "listen_added tok (nonce (length e2)) ?cur w2")
  have "list_all on_wire e2" using unlisten_removed_wire [of tok "nonce 0" ?cur ?w1] u by simp
  moreover have "list_all on_wire e3"
    using listen_added_wire [of tok "nonce (length e2)" ?cur w2] l by simp
  ultimately show ?thesis using True u l by (simp add: handle_topics_def Let_def)
qed

lemma message_branch_wire: "message_branch loads w m = Inr es \<Longrightarrow> list_all on_wire es"
  by (auto simp: message_branch_def split: sum.splits option.splits)

lemma handle_recv_wire: "list_all on_wire (fst (snd (handle_recv loads now' w r)))"
  by (auto simp: handle_recv_def message_branch_wire split: option.splits json.splits sum.splits)

lemma iteration_wire: "list_all on_wire (fst (snd (iteration cfg loads k w)))"
proof -
  obtain w1 e1 s1 where p: "handle_ping cfg (time_ping k) (time_ping_reconnect k) w = (w1, e1, s1)"
    by (cases "handle_ping cfg (time_ping k) (time_ping_reconnect k) w")
  obtain w2 e2 s2 where t: "handle_topics (auth_token k) (nonces k) w1 = (w2, e2, s2)"
    by (cases "handle_topics (auth_token k) (nonces k) w1")
  obtain w3 e3 s3 where r: "handle_recv loads (time_recv_reconnect k)
                (interrupted k w2) (received k) = (w3, e3, s3)"
    by (cases "handle_recv loads (time_recv_reconnect k) (interrupted k w2) (received k)")
  have 1: "list_all on_wire e1"
    using handle_ping_wire [of cfg "time_ping k" "time_ping_reconnect k" w] p by simp
  have 2: "list_all on_wire e2"
    using handle_topics_wire [of "auth_token k" "nonces k" w1] t by simp
  have 3: "list_all on_wire e3"
    using handle_recv_wire [of loads "time_recv_reconnect k" "interrupted k w2" "received k"] r
    by simp
  show ?thesis using p t r 1 2 3 by (simp add: iteration_def)
qed

lemma inner_loop_wire: "list_all on_wire (fst (snd (inner_loop cfg loads w ks)))"
proof (induction ks arbitrary: w)
  case Nil
  show ?case by simp
next
  case (Cons k ks)
  obtain w1 e1 s1 where i: "iteration cfg loads k w = (w1, e1, s1)"
    by (cases "iteration cfg loads k w")
  have 1: "list_all on_wire e1" using iteration_wire [of cfg loads k w] i by simp
  show ?case using i 1 Cons.IH [of w1]
    by (cases s1) (simp_all add: split_def Let_def)
qed

lemma slot_ok_wire: "list_all on_wire es \<Longrightarrow> slot_ok occ (es @ es') = slot_ok occ es'"
proof (induction es)
  case Nil
  show ?case by simp
next
  case (Cons e es)
  then show ?case by (cases e) simp_all
qed

lemma session_effects:
  "\<exists>es'. list_all on_wire es' \<and>
     fst (snd (session cfg loads tr ks w)) =
       (if snd (snd (session cfg loads tr ks w)) = Unfinished
           \<or> snd (snd (session cfg loads tr ks w)) = Suspended
        then Published tr # es' else Published tr # es' @ [Cleared])"
proof -
  obtain w1 es x where i: "inner_loop cfg loads (publish tr w) ks = (w1, es, x)"
    by (cases "inner_loop cfg loads (publish tr w) ks")
  have "list_all on_wire es" using inner_loop_wire [of cfg loads "publish tr w" ks] i by simp
  moreover have "fst (snd (session cfg loads tr ks w)) =
       (if snd (snd (session cfg loads tr ks w)) = Unfinished
           \<or> snd (snd (session cfg loads tr ks w)) = Suspended
        then Published tr # es else Published tr # es @ [Cleared])"
    using i by (simp add: session_def)
  ultimately show ?thesis by blast
qed

lemma session_exit_cleared:
  assumes "session cfg loads tr ks w = (w1, es, x)" and "x \<noteq> Unfinished" and "x \<noteq> Suspended"
  shows "ws w1 = None \<and> submitted w1 = [] \<and> topics w1 = topics w
       \<and> (\<exists>es'. es = Published tr # es' @ [Cleared] \<and> list_all on_wire es')"
proof -
  obtain w0 es0 x0 where i: "inner_loop cfg loads (publish tr w) ks = (w0, es0, x0)"
    by (cases "inner_loop cfg loads (publish tr w) ks")
  have x0: "x0 = x" using assms i by (simp add: session_def split: if_splits)
  have w1: "w1 = cleanup w0" and es: "es = Published tr # es0 @ [Cleared]"
    using assms i x0 by (simp_all add: session_def)
  have "topics w0 = topics w"
    using inner_loop_topics [of cfg loads "publish tr w" ks] i by (simp add: publish_def)
  moreover have "list_all on_wire es0"
    using inner_loop_wire [of cfg loads "publish tr w" ks] i by simp
  ultimately show ?thesis using w1 es by (simp add: cleanup_def)
qed

lemma handle_loop_slot_ok: "slot_ok False (snd (handle_loop cfg loads w ss))"
proof (induction ss arbitrary: w)
  case Nil
  show ?case by simp
next
  case (Cons s ss)
  obtain tr ks where s: "s = (tr, ks)" by (cases s)
  obtain w1 es x where r: "session cfg loads tr ks w = (w1, es, x)"
    by (cases "session cfg loads tr ks w")
  obtain es' where wire: "list_all on_wire es'"
    and es: "es = (if x = Unfinished \<or> x = Suspended
                   then Published tr # es' else Published tr # es' @ [Cleared])"
    using session_effects [of cfg loads tr ks w] r by auto
  obtain w2 es2 where h: "handle_loop cfg loads w1 ss = (w2, es2)"
    by (cases "handle_loop cfg loads w1 ss")
  have ih: "slot_ok False es2" using Cons.IH [of w1] h by simp
  have w0: "slot_ok occ es' = True" for occ using slot_ok_wire [OF wire, of occ "[]"] by simp
  show ?case
  proof (cases "x = Requested \<or> (x = Failed WebsocketClosed \<and> \<not> closed w1)")
    case True
    then have x: "x \<noteq> Unfinished" "x \<noteq> Suspended" by auto
    have "snd (handle_loop cfg loads w (s # ss)) = Published tr # es' @ Cleared # es2"
      using True r h es x by (simp add: s)
    then show ?thesis using ih by (simp add: slot_ok_wire [OF wire])
  next
    case False
    have "snd (handle_loop cfg loads w (s # ss)) = es" using False r by (auto simp: s)
    then show ?thesis using es w0 by (simp add: slot_ok_wire [OF wire])
  qed
qed

text \<open>
  C6. The ping handler at clock reading \<open>now\<close>. If \<open>now\<close> has reached the next-ping
  time, on a connection with a live transport, it sends a PING, sets the next ping
  \<open>PING_INTERVAL\<close> and the pong deadline \<open>PING_TIMEOUT\<close> after \<open>now\<close>. Otherwise, if
  \<open>now\<close> has reached the pong deadline, it requests a reconnect; otherwise it does
  nothing. A PONG moves the deadline onto the next-ping time, after which the handler
  requests no reconnect, whatever the clock. Every way out of the inner loop leaves the
  slot empty, the clearing being the last thing that happens on that transport, and over
  the whole run of \<open>_handle\<close> a transport is only ever published into an empty slot.
\<close>

theorem keepalive:
  "(next_ping w \<le> now \<and> ws w = Some tr \<longrightarrow>
      handle_ping cfg now now' w =
        (w\<lparr>next_ping := now + PING_INTERVAL cfg, max_pong := now + PING_TIMEOUT cfg\<rparr>,
         [Sent tr Ping None], Returned))
 \<and> (now < next_ping w \<and> max_pong w \<le> now \<longrightarrow>
      handle_ping cfg now now' w = (w\<lparr>next_ping := now', reconnect_requested := True\<rparr>, [], Returned))
 \<and> (now < next_ping w \<and> now < max_pong w \<longrightarrow> handle_ping cfg now now' w = (w, [], Returned))
 \<and> (ws w = Some tr \<and> loads d = Some (JObj kv) \<and> map_of kv ''type'' = Some (JStr ''PONG'') \<longrightarrow>
      handle_recv loads t w (Some \<lparr>msg_type = TEXT, data = d\<rparr>)
        = (w\<lparr>max_pong := next_ping w\<rparr>, [], Returned)
      \<and> reconnect_requested (fst (handle_ping cfg now now' (w\<lparr>max_pong := next_ping w\<rparr>)))
          = reconnect_requested w)
 \<and> (session cfg loads tr ks w = (w1, es, x) \<and> x \<noteq> Unfinished \<and> x \<noteq> Suspended \<longrightarrow>
      ws w1 = None \<and> (\<exists>es'. es = Published tr # es' @ [Cleared] \<and> list_all on_wire es'))
 \<and> slot_ok False (snd (handle cfg loads w sessions))"
proof (intro conjI impI)
  assume "next_ping w \<le> now \<and> ws w = Some tr"
  then show "handle_ping cfg now now' w =
        (w\<lparr>next_ping := now + PING_INTERVAL cfg, max_pong := now + PING_TIMEOUT cfg\<rparr>,
         [Sent tr Ping None], Returned)"
    by (simp add: handle_ping_def send_def)
next
  assume "now < next_ping w \<and> max_pong w \<le> now"
  then show "handle_ping cfg now now' w
      = (w\<lparr>next_ping := now', reconnect_requested := True\<rparr>, [], Returned)"
    by (simp add: handle_ping_def request_reconnect_def)
next
  assume "now < next_ping w \<and> now < max_pong w"
  then show "handle_ping cfg now now' w = (w, [], Returned)"
    by (simp add: handle_ping_def)
next
  assume a: "ws w = Some tr \<and> loads d = Some (JObj kv) \<and> map_of kv ''type'' = Some (JStr ''PONG'')"
  then show "handle_recv loads t w (Some \<lparr>msg_type = TEXT, data = d\<rparr>)
        = (w\<lparr>max_pong := next_ping w\<rparr>, [], Returned)"
    by (simp add: handle_recv_def)
  show "reconnect_requested (fst (handle_ping cfg now now' (w\<lparr>max_pong := next_ping w\<rparr>)))
          = reconnect_requested w"
    using a by (simp add: handle_ping_def send_def)
next
  assume a: "session cfg loads tr ks w = (w1, es, x) \<and> x \<noteq> Unfinished \<and> x \<noteq> Suspended"
  then have *: "ws w1 = None \<and> submitted w1 = [] \<and> topics w1 = topics w
       \<and> (\<exists>es'. es = Published tr # es' @ [Cleared] \<and> list_all on_wire es')"
    using session_exit_cleared [of cfg loads tr ks w w1 es x] by blast
  from * show "ws w1 = None" by blast
  from * show "\<exists>es'. es = Published tr # es' @ [Cleared] \<and> list_all on_wire es'" by blast
next
  show "slot_ok False (snd (handle cfg loads w sessions))"
    by (simp add: handle_def handle_loop_slot_ok)
qed

text \<open>
  C8, as the code has it. A text frame that decodes to a JSON object whose type is none
  of MESSAGE, PONG and RECONNECT (or that has no type) is ignored: the receive handler
  returns, without an effect and with the connection as it was. So is a receive timeout.
\<close>

theorem recv_ignored:
  "(ws w = Some tr \<and> loads d = Some (JObj kv)
      \<and> map_of kv ''type'' \<noteq> Some (JStr ''MESSAGE'')
      \<and> map_of kv ''type'' \<noteq> Some (JStr ''PONG'')
      \<and> map_of kv ''type'' \<noteq> Some (JStr ''RECONNECT'') \<longrightarrow>
        handle_recv loads now w (Some \<lparr>msg_type = TEXT, data = d\<rparr>) = (w, [], Returned))
 \<and> (ws w = Some tr \<longrightarrow> handle_recv loads now w None = (w, [], Returned))"
  by (simp add: handle_recv_def)

text \<open>
  The claim C8 as stated also has the handler return on a text frame that does not
  decode. The handler catches \<^verbatim>\<open>asyncio.TimeoutError\<close> only: on the text \<^verbatim>\<open>not json\<close> the
  \<^verbatim>\<open>JSONDecodeError\<close> of \<^verbatim>\<open>json.loads\<close> leaves the handler, and on the text \<^verbatim>\<open>[]\<close>, which
  decodes to a list, \<^verbatim>\<open>message.get\<close> raises \<^verbatim>\<open>AttributeError\<close>.
\<close>

theorem recv_ignored_counterexample:
  "handle_recv loads_sample 0 (demo_conn []) (Some (text_frame ''not json''))
     = (demo_conn [], [], Raised JSONDecodeError)
   \<and> handle_recv loads_sample 0 (demo_conn []) (Some (text_frame ''[]''))
     = (demo_conn [], [], Raised AttributeError)"
  by (simp add: handle_recv_def loads_sample_def text_frame_def demo_conn_def)

theorem recv_ignored_witness:
  "handle_recv loads_sample 0 (demo_conn []) (Some (text_frame ''{}'')) = (demo_conn [], [], Returned)
   \<and> handle_recv loads_sample 0 (demo_conn []) None = (demo_conn [], [], Returned)"
  using recv_ignored [of "demo_conn []" 7 loads_sample "''{}''" "[]" 0]
  by (simp add: loads_sample_def text_frame_def demo_conn_def)

theorem keepalive_witness:
  "handle_ping demo_cfg 5 5 (demo_conn []) =
     ((demo_conn [])\<lparr>next_ping := 185, max_pong := 15\<rparr>, [Sent 7 Ping None], Returned)
   \<and> handle_ping demo_cfg 20 21 ((demo_conn [])\<lparr>next_ping := 185, max_pong := 15\<rparr>) =
     ((demo_conn [])\<lparr>next_ping := 21, max_pong := 15, reconnect_requested := True\<rparr>, [], Returned)"
  using keepalive [of "demo_conn []" 5 7 demo_cfg 5]
    keepalive [of "(demo_conn [])\<lparr>next_ping := 185, max_pong := 15\<rparr>" 20 7 demo_cfg 21]
  by (simp add: demo_conn_def demo_ws_def Websocket_def demo_cfg_def)

lemma well_formed_values:
  assumes "well_formed w"
  shows "map topic_str (dict_values (topics w)) = dict_keys (topics w)"
    and "distinct (map topic_str (dict_values (topics w)))"
proof -
  have "\<forall>x \<in> set (topics w). topic_str (snd x) = fst x"
    using assms by (auto simp: well_formed_def)
  then show 1: "map topic_str (dict_values (topics w)) = dict_keys (topics w)"
    by (simp add: dict_values_def dict_keys_def)
  show "distinct (map topic_str (dict_values (topics w)))"
    unfolding 1 using assms by (simp add: well_formed_def)
qed

lemma resync:
  assumes "ws w = Some tr" and "topics_changed w" and "submitted w = []"
    and "well_formed w" and "topics w \<noteq> []"
  shows "handle_topics access_token nonce w =
     (w\<lparr>topics_changed := False, submitted := dict_values (topics w)\<rparr>,
      [Sent tr (Listen (dict_keys (topics w)) access_token) (Some (nonce 0))], Returned)"
proof -
  let ?vs = "dict_values (topics w)"
  have d: "distinct (map topic_str ([] @ ?vs))" using well_formed_values(2) [OF assms(4)] by simp
  have so: "set_of ?vs = ?vs" using well_formed_values(2) [OF assms(4)] by (rule set_of_distinct)
  have su: "set_update [] ?vs = ?vs"
    using fold_set_add_distinct [OF d] by (simp add: set_update_def)
  have ne: "?vs \<noteq> []" using assms(5) by (simp add: dict_values_def)
  have r: "set_difference [] ?vs = []" by (simp add: set_difference_def)
  show ?thesis
    using assms(1,2,3) ne
    by (simp add: handle_topics_def unlisten_removed_def listen_added_def send_def so su r
        set_difference_Nil well_formed_values(1) [OF assms(4)] Let_def)
qed

text \<open>
  C9. \<^verbatim>\<open>request_reconnect\<close> sets the reconnect flag and leaves the topic map alone, and
  a RECONNECT message from the server does just that call. With the flag set the inner
  loop ends. When a run on one transport ends that way, the connection has the topic map
  it had before, an empty submitted set and an empty slot; on the next transport the
  topics-changed flag is set with the submitted set still empty and the topic map the
  same, and the first sync there sends one LISTEN with every key of the topic map.
\<close>

theorem reconnect_preserves:
  "topics (request_reconnect now w) = topics w \<and> reconnect_requested (request_reconnect now w)
 \<and> (ws w = Some tr \<and> loads d = Some (JObj kv) \<and> map_of kv ''type'' = Some (JStr ''RECONNECT'') \<longrightarrow>
      handle_recv loads now w (Some \<lparr>msg_type = TEXT, data = d\<rparr>)
        = (request_reconnect now w, [], Returned))
 \<and> (reconnect_requested w \<longrightarrow> inner_loop cfg loads w ks = (w, [], Requested))
 \<and> (session cfg loads tr ks w = (w1, es, Requested) \<longrightarrow>
      topics w1 = topics w \<and> submitted w1 = [] \<and> ws w1 = None
      \<and> session cfg loads tr' [] w1 =
          (w1\<lparr>ws := Some tr', reconnect_requested := False, topics_changed := True\<rparr>,
           [Published tr'], Unfinished)
      \<and> (well_formed w \<and> topics w \<noteq> [] \<longrightarrow>
           handle_topics access_token nonce
               (w1\<lparr>ws := Some tr', reconnect_requested := False, topics_changed := True\<rparr>) =
             (w1\<lparr>ws := Some tr', reconnect_requested := False, topics_changed := False,
                 submitted := dict_values (topics w)\<rparr>,
              [Sent tr' (Listen (dict_keys (topics w)) access_token) (Some (nonce 0))],
              Returned)))"
proof (intro conjI impI)
  show "topics (request_reconnect now w) = topics w"
    and "reconnect_requested (request_reconnect now w)"
    by (simp_all add: request_reconnect_def)
next
  assume "ws w = Some tr \<and> loads d = Some (JObj kv) \<and> map_of kv ''type'' = Some (JStr ''RECONNECT'')"
  then show "handle_recv loads now w (Some \<lparr>msg_type = TEXT, data = d\<rparr>)
        = (request_reconnect now w, [], Returned)"
    by (simp add: handle_recv_def)
next
  assume "reconnect_requested w"
  then show "inner_loop cfg loads w ks = (w, [], Requested)" by (cases ks) simp_all
next
  assume a: "session cfg loads tr ks w = (w1, es, Requested)"
  have *: "ws w1 = None \<and> submitted w1 = [] \<and> topics w1 = topics w
       \<and> (\<exists>es'. es = Published tr # es' @ [Cleared] \<and> list_all on_wire es')"
    using session_exit_cleared [OF a] by simp
  from * show "topics w1 = topics w" and "submitted w1 = []" and "ws w1 = None" by blast+
  show "session cfg loads tr' [] w1 =
          (w1\<lparr>ws := Some tr', reconnect_requested := False, topics_changed := True\<rparr>,
           [Published tr'], Unfinished)"
    by (simp add: session_def publish_def)
  assume b: "well_formed w \<and> topics w \<noteq> []"
  let ?w = "w1\<lparr>ws := Some tr', reconnect_requested := False, topics_changed := True\<rparr>"
  have wf: "well_formed ?w" using b * by (simp add: well_formed_def)
  have "handle_topics access_token nonce ?w =
     (?w\<lparr>topics_changed := False, submitted := dict_values (topics ?w)\<rparr>,
      [Sent tr' (Listen (dict_keys (topics ?w)) access_token) (Some (nonce 0))], Returned)"
    using b * by (intro resync wf) simp_all
  then show "handle_topics access_token nonce ?w =
             (w1\<lparr>ws := Some tr', reconnect_requested := False, topics_changed := False,
                 submitted := dict_values (topics w)\<rparr>,
              [Sent tr' (Listen (dict_keys (topics w)) access_token) (Some (nonce 0))],
              Returned)"
    using * by simp
qed

lemma demo_session:
  "session demo_cfg loads_sample 7 [demo_tick 20 None] demo_late =
     (demo_late\<lparr>ws := None, next_ping := 20, reconnect_requested := True,
                topics_changed := False, submitted := []\<rparr>,
      [Published 7, Cleared], Requested)"
  by (simp add: session_def publish_def cleanup_def iteration_def handle_ping_def
      handle_topics_def unlisten_removed_def listen_added_def handle_recv_def interrupted_def
      request_reconnect_def demo_late_def demo_conn_def demo_ws_def demo_tick_def
      Websocket_def topic_of_def set_of_def set_update_def set_add_def set_difference_def
      topic_mem_def dict_values_def Let_def)

theorem reconnect_preserves_witness:
  "topics (fst (session demo_cfg loads_sample 7 [demo_tick 20 None] demo_late)) = topics demo_late
   \<and> submitted (fst (session demo_cfg loads_sample 7 [demo_tick 20 None] demo_late)) = []
   \<and> ws (fst (session demo_cfg loads_sample 7 [demo_tick 20 None] demo_late)) = None"
  using reconnect_preserves [where w=demo_late and tr=7 and loads=loads_sample and cfg=demo_cfg
      and ks="[demo_tick 20 None]" and es="[Published 7, Cleared]"
      and ?w1.0="fst (session demo_cfg loads_sample 7 [demo_tick 20 None] demo_late)"]
  by (simp add: demo_session)

end
